theory Spec2Isabelle
  imports Main "HOL-Library.Sublist"
begin

unbundle bit_operations_syntax

section \<open>Errors and bytes\<close>

text \<open>
  The error numbers that \<^verbatim>\<open>FuseOSError\<close> carries in \<^verbatim>\<open>acd_fuse.py\<close>. A byte string
  is a list of characters.
\<close>

datatype errno =
  ENOENT | ENOTDIR | EEXIST | ESPIPE | EREMOTEIO | ETIMEDOUT | ECOMM | EFAULT | ENODATA | ENOSYS

type_synonym bytes = string

section \<open>Write proxy\<close>

subsection \<open>WriteStream\<close>

definition WRITE_BUFFER_SZ :: nat where
  "WRITE_BUFFER_SZ = 2 ^ 5"

text \<open>
  \<^verbatim>\<open>WriteStream.__slots__ = ('q', 'offset', 'error', 'closed', 'done')\<close>. The queue holds
  the written blocks, oldest first; \<^verbatim>\<open>done\<close> is the event, here its flag.
\<close>

record WriteStream =
  ws_q :: "bytes list"
  ws_offset :: int
  ws_error :: bool
  ws_closed :: bool
  ws_done :: bool

definition WriteStream_init :: WriteStream where
  "WriteStream_init =
     \<lparr>ws_q = [], ws_offset = 0, ws_error = False, ws_closed = False, ws_done = False\<rparr>"

text \<open>
  \<^verbatim>\<open>WriteStream.write\<close>. \<^verbatim>\<open>q.put(data, timeout=WRITE_TIMEOUT)\<close> stores the block at once
  when the queue has a free slot. On a full queue it waits for the uploader thread to take
  blocks off; a read that arrives while the call waits is the interleaving "read, then
  write" of the two operations, so the full-queue branch of the model is the wait that ends
  with \<^verbatim>\<open>QueueFull\<close>.
\<close>

definition WriteStream_write :: "WriteStream \<Rightarrow> bytes \<Rightarrow> (errno + unit) \<times> WriteStream" where
  "WriteStream_write s data =
     (if ws_error s then (Inl EREMOTEIO, s)
      else if WRITE_BUFFER_SZ \<le> length (ws_q s) then (Inl ETIMEDOUT, s)
      else (Inr (), s\<lparr>ws_q := ws_q s @ [data],
                      ws_offset := ws_offset s + int (length data)\<rparr>))"

text \<open>
  \<^verbatim>\<open>WriteStream.read\<close>, called by the uploader thread. \<open>None\<close> is the call that does not
  return: \<^verbatim>\<open>q.get()\<close> on an empty queue of a stream that is not closed waits for a block.
\<close>

datatype io_error = IOError_EIO

definition WriteStream_read :: "WriteStream \<Rightarrow> (io_error + bytes) option \<times> WriteStream" where
  "WriteStream_read s =
     (if ws_error s then (Some (Inl IOError_EIO), s)
      else if ws_closed s \<and> ws_q s = [] then (Some (Inr []), s)
      else if ws_q s = [] then (None, s)
      else (Some (Inr (concat (ws_q s))), s\<lparr>ws_q := []\<rparr>))"

text \<open>
  What \<^verbatim>\<open>WriteProxy.write_n_sync\<close> does to the stream once
  \<^verbatim>\<open>acd_client.overwrite_stream\<close> has raised (\<open>Inl\<close>) or returned the node (\<open>Inr\<close>).
\<close>

definition write_n_sync :: "WriteStream \<Rightarrow> 'e + 'm \<Rightarrow> WriteStream" where
  "write_n_sync stream r =
     (case r of Inl e \<Rightarrow> stream\<lparr>ws_error := True\<rparr> | Inr m \<Rightarrow> stream\<lparr>ws_done := True\<rparr>)"

text \<open>
  A history of one stream: writes by the kernel, reads by the uploader, and the end of the
  upload. \<open>buffered\<close> adds up the lengths of the blocks whose write returned.
\<close>

datatype stream_op = Write bytes | Read | Uploaded "unit + unit"

fun stream_step :: "WriteStream \<Rightarrow> stream_op \<Rightarrow> WriteStream" where
  "stream_step s (Write d) = snd (WriteStream_write s d)"
| "stream_step s Read = snd (WriteStream_read s)"
| "stream_step s (Uploaded r) = write_n_sync s r"

fun buffered :: "WriteStream \<Rightarrow> stream_op list \<Rightarrow> int" where
  "buffered s [] = 0"
| "buffered s (Write d # ops) =
     (if fst (WriteStream_write s d) = Inr () then int (length d) else 0)
       + buffered (stream_step s (Write d)) ops"
| "buffered s (x # ops) = buffered (stream_step s x) ops"

text \<open>
  What went through the queue in a history: \<open>written\<close> is the data of the writes that
  returned, in the order of the calls, and \<open>taken\<close> is what the uploader's reads returned.
\<close>

fun written :: "WriteStream \<Rightarrow> stream_op list \<Rightarrow> bytes" where
  "written s [] = []"
| "written s (Write d # ops) =
     (if fst (WriteStream_write s d) = Inr () then d else [])
       @ written (stream_step s (Write d)) ops"
| "written s (x # ops) = written (stream_step s x) ops"

fun taken :: "WriteStream \<Rightarrow> stream_op list \<Rightarrow> bytes" where
  "taken s [] = []"
| "taken s (Read # ops) =
     (case fst (WriteStream_read s) of Some (Inr b) \<Rightarrow> b | _ \<Rightarrow> [])
       @ taken (stream_step s Read) ops"
| "taken s (x # ops) = taken (stream_step s x) ops"

subsection \<open>WriteProxy\<close>

text \<open>
  \<^verbatim>\<open>self.files\<close> is a \<^verbatim>\<open>defaultdict(WriteProxy.WriteStream)\<close>: reading a missing handle
  stores a fresh stream under it. \<open>wp_threads\<close> lists the uploader threads that were
  started, as the handle and the node id each was given.
\<close>

record WriteProxy =
  wp_files :: "int \<rightharpoonup> WriteStream"
  wp_threads :: "(int \<times> string) list"

definition WriteProxy_init :: WriteProxy where
  "WriteProxy_init = \<lparr>wp_files = Map.empty, wp_threads = []\<rparr>"

definition files_getitem :: "(int \<rightharpoonup> WriteStream) \<Rightarrow> int \<Rightarrow> WriteStream" where
  "files_getitem files fh = (case files fh of Some f \<Rightarrow> f | None \<Rightarrow> WriteStream_init)"

definition WriteProxy_write ::
  "WriteProxy \<Rightarrow> string \<Rightarrow> int \<Rightarrow> int \<Rightarrow> bytes \<Rightarrow> (errno + unit) \<times> WriteProxy" where
  "WriteProxy_write wp node_id fh offset data =
     (let f = files_getitem (wp_files wp) fh in
      if ws_offset f = offset then
        (case WriteStream_write f data of
           (Inl e, f') \<Rightarrow> (Inl e, wp\<lparr>wp_files := (wp_files wp)(fh \<mapsto> f')\<rparr>)
         | (Inr u, f') \<Rightarrow>
             (Inr (), wp\<lparr>wp_files := (wp_files wp)(fh \<mapsto> f'),
                         wp_threads := (if offset = 0 then wp_threads wp @ [(fh, node_id)]
                                        else wp_threads wp)\<rparr>))
      else (Inl ESPIPE, wp\<lparr>wp_files := (wp_files wp)(fh \<mapsto> f\<lparr>ws_error := True\<rparr>)\<rparr>))"

text \<open>
  What can happen to the proxy while handles stay open: a write call, a read by the
  uploader of a handle, and the end of the upload of a handle.
\<close>

datatype proxy_op =
  WpWrite string int int bytes
| WpRead int
| WpUploaded int "unit + unit"

fun proxy_step :: "WriteProxy \<Rightarrow> proxy_op \<Rightarrow> (errno + unit) option \<times> WriteProxy" where
  "proxy_step wp (WpWrite node_id fh offset b) =
     (case WriteProxy_write wp node_id fh offset b of (r, wp') \<Rightarrow> (Some r, wp'))"
| "proxy_step wp (WpRead fh) =
     (case wp_files wp fh of
        None \<Rightarrow> (None, wp)
      | Some f \<Rightarrow> (None, wp\<lparr>wp_files := (wp_files wp)(fh \<mapsto> snd (WriteStream_read f))\<rparr>))"
| "proxy_step wp (WpUploaded fh r) =
     (case wp_files wp fh of
        None \<Rightarrow> (None, wp)
      | Some f \<Rightarrow> (None, wp\<lparr>wp_files := (wp_files wp)(fh \<mapsto> write_n_sync f r)\<rparr>))"

fun proxy_run :: "WriteProxy \<Rightarrow> proxy_op list \<Rightarrow> (proxy_op \<times> (errno + unit) option) list" where
  "proxy_run wp [] = []"
| "proxy_run wp (x # xs) =
     (case proxy_step wp x of (r, wp') \<Rightarrow> (x, r) # proxy_run wp' xs)"

fun write_on :: "int \<Rightarrow> proxy_op \<Rightarrow> bool" where
  "write_on fh (WpWrite node_id fh' offset b) = (fh' = fh)"
| "write_on fh x = False"

definition failed :: "(errno + unit) option \<Rightarrow> bool" where
  "failed r = (case r of Some (Inl e) \<Rightarrow> True | _ \<Rightarrow> False)"

definition errored :: "WriteProxy \<Rightarrow> int \<Rightarrow> bool" where
  "errored wp fh = (case wp_files wp fh of None \<Rightarrow> False | Some f \<Rightarrow> ws_error f)"

section \<open>What the filesystem layer is given\<close>

text \<open>
  Exceptions that leave a method of \<^verbatim>\<open>acd_fuse.py\<close>: \<^verbatim>\<open>FuseOSError\<close> with its error
  number, and the Python exceptions that are none (\<^verbatim>\<open>StopIteration\<close> from \<^verbatim>\<open>next\<close>, the
  bare \<^verbatim>\<open>Exception\<close> of \<^verbatim>\<open>StreamChunk.get\<close>, \<^verbatim>\<open>AttributeError\<close> from an attribute of
  \<^verbatim>\<open>None\<close>). A \<^verbatim>\<open>RequestError\<close> is its status code.
\<close>

datatype exn = FuseOSError errno | StopIteration | Exception | AttributeError

type_synonym RequestError = int

text \<open>
  Modelled from the spec: the node the cache resolves a path to. The cache is not part of
  these sources; section 3 of the specification gives a node an id and one of two variants,
  and a file a size and an md5. \<^verbatim>\<open>acd_fuse.py\<close> reads \<^verbatim>\<open>id\<close>, \<^verbatim>\<open>is_file\<close>, \<^verbatim>\<open>size\<close>, \<^verbatim>\<open>md5\<close>
  and \<^verbatim>\<open>description\<close>.
\<close>

datatype node_type = FILE | FOLDER

record node =
  n_id :: string
  n_type :: node_type
  n_size :: int
  n_md5 :: string
  n_description :: "string option"

definition is_file :: "node \<Rightarrow> bool" where
  "is_file n = (n_type n = FILE)"

text \<open>
  The response of a ranged download, as far as \<^verbatim>\<open>StreamChunk\<close> uses it: the
  \<^verbatim>\<open>content-length\<close> header, the bytes the connection still delivers, and whether
  \<^verbatim>\<open>close\<close> was called on it.
\<close>

record response =
  content_length :: int
  body :: bytes
  r_closed :: bool

text \<open>
  The collaborators of \<^verbatim>\<open>acd_fuse.py\<close> that are not in these sources are parameters: the
  cache (\<^verbatim>\<open>resolve\<close>, whose second argument is absent, \<open>None\<close>, where the call passes
  none, and \<^verbatim>\<open>insert_node\<close>) over a cache state \<open>'c\<close>, the remote client over the
  metadata \<open>'m\<close> it returns, and the constants \<^verbatim>\<open>RequestError.CODE.CONN_EXCEPTION\<close>,
  \<^verbatim>\<open>CHUNK_SZ\<close> and \<^verbatim>\<open>os.O_APPEND\<close>. A remote call raises \<^verbatim>\<open>RequestError\<close> (\<open>Inl\<close>) or
  returns (\<open>Inr\<close>).
\<close>

record ('c, 'm) env =
  CONN_EXCEPTION :: int
  CHUNK_SZ :: int
  O_APPEND :: int
  resolve :: "'c \<Rightarrow> string \<Rightarrow> bool option \<Rightarrow> node option"
  insert_node :: "'c \<Rightarrow> 'm \<Rightarrow> 'c"
  response_chunk :: "string \<Rightarrow> int \<Rightarrow> int \<Rightarrow> RequestError + response"
  create_file :: "string \<Rightarrow> string \<Rightarrow> RequestError + 'm"
  move_to_trash :: "string \<Rightarrow> RequestError + 'm"
  rename_node :: "string \<Rightarrow> string \<Rightarrow> RequestError + 'm"
  move_node :: "string \<Rightarrow> string \<Rightarrow> RequestError + 'm"

text \<open>
  \<^verbatim>\<open>FuseOSError.convert\<close>: the error number it raises. 409 and 416 are
  \<^verbatim>\<open>codes.CONFLICT\<close> and \<^verbatim>\<open>codes.REQUESTED_RANGE_NOT_SATISFIABLE\<close>.
\<close>

definition convert :: "('c, 'm) env \<Rightarrow> RequestError \<Rightarrow> errno" where
  "convert env status_code =
     (if status_code = CONN_EXCEPTION env then ECOMM
      else if status_code = 409 then EEXIST
      else if status_code = 416 then EFAULT
      else EREMOTEIO)"

section \<open>Read proxy\<close>

definition MAX_CHUNKS_PER_FILE :: nat where
  "MAX_CHUNKS_PER_FILE = 15"

text \<open>
  \<^verbatim>\<open>StreamChunk.__slots__ = ('offset', 'r', 'end')\<close>. Responses are objects that outlive
  the chunk that holds them, so they live in a table (\<open>response list\<close>) and \<open>sc_r\<close> is the
  position of the chunk's response in it; a new response goes to the end of the table.
\<close>

record StreamChunk =
  sc_offset :: int
  sc_r :: nat
  sc_end :: int

definition StreamChunk_init ::
  "('c, 'm) env \<Rightarrow> response list \<Rightarrow> string \<Rightarrow> int \<Rightarrow> int
     \<Rightarrow> RequestError + StreamChunk \<times> response list" where
  "StreamChunk_init env streams nid offset len =
     (case response_chunk env nid offset len of
        Inl e \<Rightarrow> Inl e
      | Inr r \<Rightarrow>
          Inr (\<lparr>sc_offset = offset, sc_r = length streams,
                sc_end = offset + content_length r - 1\<rparr>, streams @ [r]))"

definition has_byte_range :: "StreamChunk \<Rightarrow> int \<Rightarrow> int \<Rightarrow> bool" where
  "has_byte_range c offset len = (offset = sc_offset c \<and> offset + len - 1 \<le> sc_end c)"

text \<open>
  \<^verbatim>\<open>StreamChunk.get\<close>. \<^verbatim>\<open>next(self.r.iter_content(length))\<close> gives the next \<open>len\<close> bytes
  of the body, fewer at its end, and raises \<^verbatim>\<open>StopIteration\<close> on a body that delivers
  nothing more. The offset is advanced before the length is checked, so the chunk and the
  response are returned changed also when the call raises.
\<close>

definition StreamChunk_get ::
  "response list \<Rightarrow> StreamChunk \<Rightarrow> int \<Rightarrow> (exn + bytes) \<times> StreamChunk \<times> response list" where
  "StreamChunk_get streams c len =
     (let r = streams ! sc_r c in
      if body r = [] then (Inl StopIteration, c, streams)
      else
        let b = take (nat len) (body r);
            streams' = streams[sc_r c := r\<lparr>body := drop (nat len) (body r)\<rparr>];
            c' = c\<lparr>sc_offset := sc_offset c + int (length b)\<rparr>
        in if int (length b) < len \<and> sc_offset c' \<le> sc_end c'
           then (Inl Exception, c', streams')
           else (Inr b, c', streams'))"

definition StreamChunk_close :: "response list \<Rightarrow> StreamChunk \<Rightarrow> response list" where
  "StreamChunk_close streams c = streams[sc_r c := (streams ! sc_r c)\<lparr>r_closed := True\<rparr>]"

text \<open>
  \<^verbatim>\<open>ReadFile\<close>: \<^verbatim>\<open>self.chunks = deque(maxlen=MAX_CHUNKS_PER_FILE)\<close>, oldest chunk first.
  \<^verbatim>\<open>append\<close> on a full deque drops the element at its left end; \<^verbatim>\<open>remove(c)\<close> takes the
  chunk out of its position. The lock and the access time are left out.
\<close>

record ReadFile =
  rf_chunks :: "StreamChunk list"

definition ReadFile_init :: ReadFile where
  "ReadFile_init = \<lparr>rf_chunks = []\<rparr>"

definition deque_append :: "'a list \<Rightarrow> 'a \<Rightarrow> 'a list" where
  "deque_append xs x =
     (if length xs < MAX_CHUNKS_PER_FILE then xs @ [x] else tl xs @ [x])"

definition deque_remove :: "nat \<Rightarrow> 'a list \<Rightarrow> 'a list" where
  "deque_remove i xs = take i xs @ drop (Suc i) xs"

text \<open>
  The \<^verbatim>\<open>while i >= 0\<close> loop of \<^verbatim>\<open>ReadFile.get\<close>, from the newest chunk down; the third
  argument is \<open>i + 1\<close>. A chunk whose \<^verbatim>\<open>get\<close> raises is removed and the search goes on.
\<close>

fun search ::
  "response list \<Rightarrow> StreamChunk list \<Rightarrow> nat \<Rightarrow> int \<Rightarrow> int
     \<Rightarrow> bytes option \<times> StreamChunk list \<times> response list" where
  "search streams chunks 0 offset len = (None, chunks, streams)"
| "search streams chunks (Suc i) offset len =
     (let c = chunks ! i in
      if has_byte_range c offset len then
        (case StreamChunk_get streams c len of
           (Inl e, c', streams') \<Rightarrow> search streams' (deque_remove i chunks) i offset len
         | (Inr bs, c', streams') \<Rightarrow> (Some bs, chunks[i := c'], streams'))
      else search streams chunks i offset len)"

text \<open>
  \<^verbatim>\<open>ReadFile.get\<close>. When no chunk serves the range a new chunk is opened, appended, and
  read from; \<^verbatim>\<open>RequestError\<close> is converted, any other exception of the new chunk's
  \<^verbatim>\<open>get\<close> leaves the method as it is. The appended chunk is the object that \<^verbatim>\<open>get\<close>
  advances, so the deque holds it advanced.
\<close>

definition ReadFile_get ::
  "('c, 'm) env \<Rightarrow> response list \<Rightarrow> ReadFile \<Rightarrow> string \<Rightarrow> int \<Rightarrow> int \<Rightarrow> int
     \<Rightarrow> (exn + bytes) \<times> ReadFile \<times> response list" where
  "ReadFile_get env streams rf nid offset len tot =
     (case search streams (rf_chunks rf) (length (rf_chunks rf)) offset len of
        (Some bs, chunks, streams') \<Rightarrow> (Inr bs, rf\<lparr>rf_chunks := chunks\<rparr>, streams')
      | (None, chunks, streams') \<Rightarrow>
          (case StreamChunk_init env streams' nid offset (CHUNK_SZ env) of
             Inl e \<Rightarrow> (Inl (FuseOSError (convert env e)), rf\<lparr>rf_chunks := chunks\<rparr>, streams')
           | Inr (chunk, streams'') \<Rightarrow>
               (case StreamChunk_get streams'' chunk len of
                  (r, chunk', streams''') \<Rightarrow>
                    (r, rf\<lparr>rf_chunks := deque_append chunks chunk'\<rparr>, streams'''))))"

text \<open>\<^verbatim>\<open>ReadFile.clear\<close>: closes every chunk of the deque, then empties it.\<close>

fun close_all :: "response list \<Rightarrow> StreamChunk list \<Rightarrow> response list" where
  "close_all streams [] = streams"
| "close_all streams (chunk # chunks) = close_all (StreamChunk_close streams chunk) chunks"

definition ReadFile_clear :: "response list \<Rightarrow> ReadFile \<Rightarrow> ReadFile \<times> response list" where
  "ReadFile_clear streams rf = (rf\<lparr>rf_chunks := []\<rparr>, close_all streams (rf_chunks rf))"

text \<open>
  \<^verbatim>\<open>ReadProxy\<close>: \<^verbatim>\<open>self.files = defaultdict(ReadProxy.ReadFile)\<close>, by node id, and the
  table of the responses opened so far.
\<close>

record ReadProxy =
  rp_files :: "string \<rightharpoonup> ReadFile"
  rp_streams :: "response list"

definition ReadProxy_init :: ReadProxy where
  "ReadProxy_init = \<lparr>rp_files = Map.empty, rp_streams = []\<rparr>"

definition ReadProxy_get ::
  "('c, 'm) env \<Rightarrow> ReadProxy \<Rightarrow> string \<Rightarrow> int \<Rightarrow> int \<Rightarrow> int \<Rightarrow> (exn + bytes) \<times> ReadProxy" where
  "ReadProxy_get env rp nid offset len tot =
     (let f = (case rp_files rp nid of Some f \<Rightarrow> f | None \<Rightarrow> ReadFile_init) in
      case ReadFile_get env (rp_streams rp) f nid offset len tot of
        (r, f', streams') \<Rightarrow> (r, \<lparr>rp_files = (rp_files rp)(nid \<mapsto> f'), rp_streams = streams'\<rparr>))"

definition ReadProxy_release :: "ReadProxy \<Rightarrow> string \<Rightarrow> ReadProxy" where
  "ReadProxy_release rp nid =
     (case rp_files rp nid of
        None \<Rightarrow> rp
      | Some f \<Rightarrow>
          (case ReadFile_clear (rp_streams rp) f of
             (f', streams') \<Rightarrow> \<lparr>rp_files = (rp_files rp)(nid \<mapsto> f'), rp_streams = streams'\<rparr>))"

definition chunks_of :: "ReadProxy \<Rightarrow> string \<Rightarrow> StreamChunk list" where
  "chunks_of rp nid = (case rp_files rp nid of None \<Rightarrow> [] | Some f \<Rightarrow> rf_chunks f)"

text \<open>
  A history of the read proxy: each call with the remote client as it answers at that
  moment.
\<close>

datatype read_op = Get string int int int | Release string

fun read_step :: "('c, 'm) env \<Rightarrow> ReadProxy \<Rightarrow> read_op \<Rightarrow> ReadProxy" where
  "read_step env rp (Get nid offset len tot) = snd (ReadProxy_get env rp nid offset len tot)"
| "read_step env rp (Release nid) = ReadProxy_release rp nid"

fun read_run :: "ReadProxy \<Rightarrow> (('c, 'm) env \<times> read_op) list \<Rightarrow> ReadProxy" where
  "read_run rp [] = rp"
| "read_run rp ((env, x) # xs) = read_run (read_step env rp x) xs"

definition bounded :: "ReadProxy \<Rightarrow> bool" where
  "bounded rp = (\<forall>nid. length (chunks_of rp nid) \<le> MAX_CHUNKS_PER_FILE)"

section \<open>Filesystem operations\<close>

text \<open>
  \<^verbatim>\<open>ACDFuse\<close>: the cache, the read proxy and the next file handle. \<open>fs_log\<close> records, in
  order, each remote mutation with its outcome and each \<^verbatim>\<open>cache.insert_node\<close>.
\<close>

datatype remote_call =
  MoveToTrash string
| RenameNode string string
| MoveNode string string
| CreateFile string string

datatype 'm event = Remote remote_call "RequestError + 'm" | CacheInsert 'm

record ('c, 'm) ACDFuse =
  fs_cache :: 'c
  fs_rp :: ReadProxy
  fs_fh :: int
  fs_log :: "'m event list"

definition ACDFuse_init :: "'c \<Rightarrow> ('c, 'm) ACDFuse" where
  "ACDFuse_init cache = \<lparr>fs_cache = cache, fs_rp = ReadProxy_init, fs_fh = 1, fs_log = []\<rparr>"

text \<open>
  \<^verbatim>\<open>os.path.basename\<close> and \<^verbatim>\<open>os.path.dirname\<close> of \<^verbatim>\<open>posixpath\<close>: the part after the last
  slash, and the part up to it without its trailing slashes unless it is slashes only.
\<close>

definition basename :: "string \<Rightarrow> string" where
  "basename p = rev (takeWhile (\<lambda>c. c \<noteq> CHR ''/'') (rev p))"

definition dirname :: "string \<Rightarrow> string" where
  "dirname p =
     (let head = rev (dropWhile (\<lambda>c. c \<noteq> CHR ''/'') (rev p)) in
      if head \<noteq> [] \<and> head \<noteq> replicate (length head) CHR ''/''
      then rev (dropWhile (\<lambda>c. c = CHR ''/'') (rev head))
      else head)"

text \<open>
  The pattern shared by \<^verbatim>\<open>_trash\<close>, \<^verbatim>\<open>_rename\<close>, \<^verbatim>\<open>_move\<close> and \<^verbatim>\<open>create\<close>: the remote
  call either raises \<^verbatim>\<open>RequestError\<close>, which \<^verbatim>\<open>FuseOSError.convert\<close> re-raises, or returns
  the node, which is handed to \<^verbatim>\<open>self.cache.insert_node\<close>.
\<close>

definition remote ::
  "('c, 'm) env \<Rightarrow> ('c, 'm) ACDFuse \<Rightarrow> remote_call \<Rightarrow> (RequestError + 'm)
     \<Rightarrow> (exn + unit) \<times> ('c, 'm) ACDFuse" where
  "remote env fs call r =
     (case r of
        Inl e \<Rightarrow>
          (Inl (FuseOSError (convert env e)), fs\<lparr>fs_log := fs_log fs @ [Remote call r]\<rparr>)
      | Inr m \<Rightarrow>
          (Inr (), fs\<lparr>fs_cache := insert_node env (fs_cache fs) m,
                      fs_log := fs_log fs @ [Remote call r, CacheInsert m]\<rparr>))"

text \<open>\<^verbatim>\<open>ACDFuse._trash\<close>, \<^verbatim>\<open>ACDFuse._rename\<close> and \<^verbatim>\<open>ACDFuse._move\<close>.\<close>

definition trash :: "('c, 'm) env \<Rightarrow> ('c, 'm) ACDFuse \<Rightarrow> string \<Rightarrow> (exn + unit) \<times> ('c, 'm) ACDFuse" where
  "trash env fs path =
     (case resolve env (fs_cache fs) path (Some False) of
        None \<Rightarrow> (Inl (FuseOSError ENOENT), fs)
      | Some node \<Rightarrow> remote env fs (MoveToTrash (n_id node)) (move_to_trash env (n_id node)))"

definition rename_id ::
  "('c, 'm) env \<Rightarrow> ('c, 'm) ACDFuse \<Rightarrow> string \<Rightarrow> string \<Rightarrow> (exn + unit) \<times> ('c, 'm) ACDFuse" where
  "rename_id env fs i name = remote env fs (RenameNode i name) (rename_node env i name)"

definition move_id ::
  "('c, 'm) env \<Rightarrow> ('c, 'm) ACDFuse \<Rightarrow> string \<Rightarrow> string \<Rightarrow> (exn + unit) \<times> ('c, 'm) ACDFuse" where
  "move_id env fs i new_folder = remote env fs (MoveNode i new_folder) (move_node env i new_folder)"

text \<open>Sequencing of statements: an exception of the first ends the method.\<close>

definition and_then ::
  "(exn + unit) \<times> 's \<Rightarrow> ('s \<Rightarrow> (exn + unit) \<times> 's) \<Rightarrow> (exn + unit) \<times> 's" where
  "and_then x f = (case x of (Inl e, s) \<Rightarrow> (Inl e, s) | (Inr u, s) \<Rightarrow> f s)"

text \<open>\<^verbatim>\<open>ACDFuse.rename\<close>.\<close>

definition rename ::
  "('c, 'm) env \<Rightarrow> ('c, 'm) ACDFuse \<Rightarrow> string \<Rightarrow> string \<Rightarrow> (exn + unit) \<times> ('c, 'm) ACDFuse" where
  "rename env fs old new =
     (if old = new then (Inr (), fs)
      else case resolve env (fs_cache fs) old (Some False) of
        None \<Rightarrow> (Inl (FuseOSError ENOENT), fs)
      | Some node \<Rightarrow>
          (let new_bn = basename new; new_dn = dirname new;
               old_bn = basename old; old_dn = dirname old in
           and_then
             (case resolve env (fs_cache fs) new (Some False) of
                None \<Rightarrow> (Inr (), fs)
              | Some existing \<Rightarrow>
                  if is_file existing then trash env fs new
                  else (Inl (FuseOSError EEXIST), fs))
             (\<lambda>fs1. and_then
                (if new_bn \<noteq> old_bn then rename_id env fs1 (n_id node) new_bn
                 else (Inr (), fs1))
                (\<lambda>fs2.
                   if new_dn \<noteq> old_dn then
                     (case resolve env (fs_cache fs2) new_dn (Some False) of
                        None \<Rightarrow> (Inl (FuseOSError ENOTDIR), fs2)
                      | Some ndir \<Rightarrow> move_id env fs2 (n_id node) (n_id ndir))
                   else (Inr (), fs2)))))"

text \<open>\<^verbatim>\<open>ACDFuse.read\<close>.\<close>

definition read ::
  "('c, 'm) env \<Rightarrow> ('c, 'm) ACDFuse \<Rightarrow> string \<Rightarrow> int \<Rightarrow> int \<Rightarrow> int
     \<Rightarrow> (exn + bytes) \<times> ('c, 'm) ACDFuse" where
  "read env fs path len offset fh =
     (case resolve env (fs_cache fs) path (Some False) of
        None \<Rightarrow> (Inl (FuseOSError ENOENT), fs)
      | Some node \<Rightarrow>
          if n_size node = 0 \<or> n_size node = offset then (Inr [], fs)
          else
            (case ReadProxy_get env (fs_rp fs) (n_id node) offset len (n_size node) of
               (r, rp') \<Rightarrow> (r, fs\<lparr>fs_rp := rp'\<rparr>)))"

text \<open>\<^verbatim>\<open>ACDFuse.open\<close> and \<^verbatim>\<open>ACDFuse.create\<close>: \<^verbatim>\<open>self.fh += 1; return self.fh\<close>.\<close>

definition open_file ::
  "('c, 'm) env \<Rightarrow> ('c, 'm) ACDFuse \<Rightarrow> string \<Rightarrow> int \<Rightarrow> (exn + int) \<times> ('c, 'm) ACDFuse" where
  "open_file env fs path flags =
     (if (flags AND O_APPEND env) = O_APPEND env then (Inl (FuseOSError EFAULT), fs)
      else (Inr (fs_fh fs + 1), fs\<lparr>fs_fh := fs_fh fs + 1\<rparr>))"

definition create ::
  "('c, 'm) env \<Rightarrow> ('c, 'm) ACDFuse \<Rightarrow> string \<Rightarrow> int \<Rightarrow> (exn + int) \<times> ('c, 'm) ACDFuse" where
  "create env fs path mode =
     (let name = basename path; ppath = dirname path in
      case resolve env (fs_cache fs) ppath (Some False) of
        None \<Rightarrow> (Inl (FuseOSError ENOTDIR), fs)
      | Some p \<Rightarrow>
          (case remote env fs (CreateFile name (n_id p)) (create_file env name (n_id p)) of
             (Inl e, fs') \<Rightarrow> (Inl e, fs')
           | (Inr u, fs') \<Rightarrow> (Inr (fs_fh fs' + 1), fs'\<lparr>fs_fh := fs_fh fs' + 1\<rparr>)))"

text \<open>
  \<^verbatim>\<open>XATTRS\<close> and \<^verbatim>\<open>FXATTRS\<close> with their \<^verbatim>\<open>vars()\<close> (the class attributes that are not
  callable, in no particular order), and \<^verbatim>\<open>ACDFuse.getxattr\<close>. Each of the three
  branches reads an attribute of the node, which raises \<^verbatim>\<open>AttributeError\<close> on \<^verbatim>\<open>None\<close>.
\<close>

definition XATTRS_ID :: string where "XATTRS_ID = ''acd.id''"

definition XATTRS_DESCR :: string where "XATTRS_DESCR = ''acd.description''"

definition FXATTRS_MD5 :: string where "FXATTRS_MD5 = ''acd.md5''"

definition XATTRS_vars :: "string list" where
  "XATTRS_vars = [XATTRS_ID, XATTRS_DESCR]"

definition FXATTRS_vars :: "string list" where
  "FXATTRS_vars = [FXATTRS_MD5, XATTRS_ID, XATTRS_DESCR]"

definition getxattr ::
  "('c, 'm) env \<Rightarrow> ('c, 'm) ACDFuse \<Rightarrow> string \<Rightarrow> string \<Rightarrow> exn + bytes" where
  "getxattr env fs path name =
     (if name \<notin> set XATTRS_vars \<and> name \<notin> set FXATTRS_vars then Inl (FuseOSError ENODATA)
      else case resolve env (fs_cache fs) path None of
        None \<Rightarrow> Inl AttributeError
      | Some node \<Rightarrow>
          if name = XATTRS_ID then Inr (n_id node)
          else if name = XATTRS_DESCR then
            Inr (case n_description node of None \<Rightarrow> [] | Some d \<Rightarrow> d)
          else if name = FXATTRS_MD5 then Inr (n_md5 node)
          else Inl (FuseOSError ENODATA))"

text \<open>
  A session of \<^verbatim>\<open>open\<close> and \<^verbatim>\<open>create\<close> calls, each with the remote client and cache as
  they answer at that moment; \<open>handles\<close> lists the handles returned, in order.
\<close>

datatype fuse_call = Open string int | Create string int

fun call_step ::
  "('c, 'm) env \<Rightarrow> ('c, 'm) ACDFuse \<Rightarrow> fuse_call \<Rightarrow> (exn + int) \<times> ('c, 'm) ACDFuse" where
  "call_step env fs (Open path flags) = open_file env fs path flags"
| "call_step env fs (Create path mode) = create env fs path mode"

fun handles :: "('c, 'm) ACDFuse \<Rightarrow> (('c, 'm) env \<times> fuse_call) list \<Rightarrow> int list" where
  "handles fs [] = []"
| "handles fs ((env, c) # cs) =
     (case call_step env fs c of
        (Inl e, fs') \<Rightarrow> handles fs' cs
      | (Inr h, fs') \<Rightarrow> h # handles fs' cs)"

text \<open>
  The events a call appended to the log, and what the log of \<^verbatim>\<open>rename\<close> is checked
  against: a remote call that returned is followed at once by the \<^verbatim>\<open>insert_node\<close> of what
  it returned, and one that raised is the last event.
\<close>

definition new_events :: "('c, 'm) ACDFuse \<Rightarrow> ('c, 'm) ACDFuse \<Rightarrow> 'm event list" where
  "new_events fs fs' = drop (length (fs_log fs)) (fs_log fs')"

fun upserted :: "'m event list \<Rightarrow> bool" where
  "upserted [] = True"
| "upserted (Remote c (Inr m) # CacheInsert m' # es) = (m = m' \<and> upserted es)"
| "upserted (Remote c (Inl e) # es) = (es = [])"
| "upserted es = False"

fun renames :: "'m event \<Rightarrow> bool" where
  "renames (Remote (RenameNode i name) r) = True"
| "renames e = False"

fun moves :: "'m event \<Rightarrow> bool" where
  "moves (Remote (MoveNode i p) r) = True"
| "moves e = False"

fun trashes :: "'m event \<Rightarrow> bool" where
  "trashes (Remote (MoveToTrash i) r) = True"
| "trashes e = False"

text \<open>
  Read off a log: the remote calls that raised, the remote calls in order with the place of
  each in the order trash, rename, move, and the cache that results from the
  \<^verbatim>\<open>insert_node\<close> calls of the log.
\<close>

fun raised :: "'m event \<Rightarrow> bool" where
  "raised (Remote c (Inl e)) = True"
| "raised e = False"

fun calls :: "'m event list \<Rightarrow> remote_call list" where
  "calls [] = []"
| "calls (Remote c r # es) = c # calls es"
| "calls (CacheInsert m # es) = calls es"

fun call_rank :: "remote_call \<Rightarrow> nat" where
  "call_rank (MoveToTrash i) = 0"
| "call_rank (RenameNode i name) = 1"
| "call_rank (MoveNode i p) = 2"
| "call_rank (CreateFile name p) = 3"

fun apply_inserts :: "('c, 'm) env \<Rightarrow> 'c \<Rightarrow> 'm event list \<Rightarrow> 'c" where
  "apply_inserts env c [] = c"
| "apply_inserts env c (CacheInsert m # es) = apply_inserts env (insert_node env c m) es"
| "apply_inserts env c (e # es) = apply_inserts env c es"

text \<open>
  The steps of a rename in the words of the amended claim C6, to compare \<open>rename\<close> with:
  trash what \<open>new\<close> resolves to, rename the node to the basename of \<open>new\<close> if the
  basenames differ, move the node to the folder that the parent path of \<open>new\<close> resolves
  to if the parent paths differ. Each step is a remote mutation followed by the cache upsert
  of its result; a step that fails ends the run, a mutation with the converted error and a
  move whose target path does not resolve at that point with \<open>ENOTDIR\<close>.
\<close>

datatype rename_step = TrashStep string | RenameStep string string | MoveStep string string

fun run_step ::
  "('c, 'm) env \<Rightarrow> ('c, 'm) ACDFuse \<Rightarrow> rename_step \<Rightarrow> (exn + unit) \<times> ('c, 'm) ACDFuse" where
  "run_step env fs (TrashStep i) =
     (case move_to_trash env i of
        Inl e \<Rightarrow>
          (Inl (FuseOSError (convert env e)),
           fs\<lparr>fs_log := fs_log fs @ [Remote (MoveToTrash i) (Inl e)]\<rparr>)
      | Inr m \<Rightarrow>
          (Inr (), fs\<lparr>fs_cache := insert_node env (fs_cache fs) m,
                      fs_log := fs_log fs @ [Remote (MoveToTrash i) (Inr m), CacheInsert m]\<rparr>))"
| "run_step env fs (RenameStep i name) =
     (case rename_node env i name of
        Inl e \<Rightarrow>
          (Inl (FuseOSError (convert env e)),
           fs\<lparr>fs_log := fs_log fs @ [Remote (RenameNode i name) (Inl e)]\<rparr>)
      | Inr m \<Rightarrow>
          (Inr (), fs\<lparr>fs_cache := insert_node env (fs_cache fs) m,
                      fs_log := fs_log fs @ [Remote (RenameNode i name) (Inr m), CacheInsert m]\<rparr>))"
| "run_step env fs (MoveStep i path) =
     (case resolve env (fs_cache fs) path (Some False) of
        None \<Rightarrow> (Inl (FuseOSError ENOTDIR), fs)
      | Some ndir \<Rightarrow>
          (case move_node env i (n_id ndir) of
             Inl e \<Rightarrow>
               (Inl (FuseOSError (convert env e)),
                fs\<lparr>fs_log := fs_log fs @ [Remote (MoveNode i (n_id ndir)) (Inl e)]\<rparr>)
           | Inr m \<Rightarrow>
               (Inr (), fs\<lparr>fs_cache := insert_node env (fs_cache fs) m,
                           fs_log := fs_log fs
                             @ [Remote (MoveNode i (n_id ndir)) (Inr m), CacheInsert m]\<rparr>)))"

fun run_steps ::
  "('c, 'm) env \<Rightarrow> ('c, 'm) ACDFuse \<Rightarrow> rename_step list \<Rightarrow> (exn + unit) \<times> ('c, 'm) ACDFuse" where
  "run_steps env fs [] = (Inr (), fs)"
| "run_steps env fs (x # xs) =
     (case run_step env fs x of
        (Inl e, fs') \<Rightarrow> (Inl e, fs')
      | (Inr u, fs') \<Rightarrow> run_steps env fs' xs)"

definition rename_plan ::
  "('c, 'm) env \<Rightarrow> ('c, 'm) ACDFuse \<Rightarrow> string \<Rightarrow> string \<Rightarrow> node \<Rightarrow> rename_step list" where
  "rename_plan env fs old new node =
     (case resolve env (fs_cache fs) new (Some False) of
        None \<Rightarrow> []
      | Some existing \<Rightarrow> [TrashStep (n_id existing)])
     @ (if basename old \<noteq> basename new then [RenameStep (n_id node) (basename new)] else [])
     @ (if dirname old \<noteq> dirname new then [MoveStep (n_id node) (dirname new)] else [])"

section \<open>Example inputs\<close>

text \<open>
  A cache that resolves four paths, a remote client whose calls all return, and ranged
  downloads of ten bytes; the inputs at which the theorems below are instantiated.
\<close>

definition example_node :: "string \<Rightarrow> node_type \<Rightarrow> int \<Rightarrow> node" where
  "example_node i t sz = \<lparr>n_id = i, n_type = t, n_size = sz, n_md5 = ''d41d'', n_description = None\<rparr>"

definition example_cache :: "(string \<times> node) list" where
  "example_cache =
     [(''/'', example_node ''root'' FOLDER 0),
      (''/a'', example_node ''A'' FOLDER 0),
      (''/a/x'', example_node ''X'' FILE 10),
      (''/a/e'', example_node ''E'' FILE 0)]"

definition example_env :: "((string \<times> node) list, string) env" where
  "example_env =
     \<lparr>CONN_EXCEPTION = 1000, CHUNK_SZ = 1024, O_APPEND = 1024,
      resolve = (\<lambda>c p t. map_of c p),
      insert_node = (\<lambda>c m. c),
      response_chunk = (\<lambda>i off len. Inr \<lparr>content_length = 10, body = ''0123456789'', r_closed = False\<rparr>),
      create_file = (\<lambda>name parent. Inr name),
      move_to_trash = (\<lambda>i. Inr i),
      rename_node = (\<lambda>i name. Inr i),
      move_node = (\<lambda>i parent. Inr i)\<rparr>"

definition example_fs :: "((string \<times> node) list, string) ACDFuse" where
  "example_fs = ACDFuse_init example_cache"

definition sixteen_reads :: "(((string \<times> node) list, string) env \<times> read_op) list" where
  "sixteen_reads = map (\<lambda>k. (example_env, Get ''X'' (100 * int k) 4 10)) [0..<16]"

definition fifteen_reads :: ReadProxy where
  "fifteen_reads = read_run ReadProxy_init (take 15 sixteen_reads)"

definition fifteen_file :: ReadFile where
  "fifteen_file = (case rp_files fifteen_reads ''X'' of Some f \<Rightarrow> f | None \<Rightarrow> ReadFile_init)"

section \<open>Sync engine\<close>

subsection \<open>Listings and records\<close>

text \<open>
  The dictionaries of a remote listing, with the keys that \<^verbatim>\<open>cache/sync.py\<close> reads: a
  folder's \<^verbatim>\<open>name\<close> is read with \<^verbatim>\<open>get\<close> (the root has none), a file's \<^verbatim>\<open>md5\<close> and
  \<^verbatim>\<open>size\<close> are those of its \<^verbatim>\<open>contentProperties\<close>.
\<close>

record listing_folder =
  lf_id :: string
  lf_name :: "string option"
  lf_createdDate :: string
  lf_modifiedDate :: string
  lf_status :: string
  lf_parents :: "string list"

record listing_file =
  li_id :: string
  li_name :: string
  li_createdDate :: string
  li_modifiedDate :: string
  li_md5 :: string
  li_size :: int
  li_status :: string
  li_parents :: "string list"

text \<open>
  Modelled from the spec: the module \<^verbatim>\<open>cache.db\<close> is not part of these sources. Its
  records \<^verbatim>\<open>db.Folder\<close> and \<^verbatim>\<open>db.File\<close> have the fields their constructors are given in
  \<^verbatim>\<open>sync.py\<close>, which are the fields of section 3 of the specification; the dates are of
  the type \<open>'t\<close> that \<^verbatim>\<open>dateutil.parser.parse\<close> returns, and the parser is a parameter
  \<open>parse\<close> of the functions below. Their \<^verbatim>\<open>==\<close> is "all tracked fields equal". The link
  of a file to its parent folders (\<^verbatim>\<open>f.parents\<close>, \<^verbatim>\<open>p_folder.children\<close>) belongs to that
  module as well and is left out; of lines 109 to 114 the model keeps the warning.
\<close>

record 't Folder =
  f_id :: string
  f_name :: "string option"
  f_created :: 't
  f_modified :: 't
  f_status :: string

record 't File =
  x_id :: string
  x_name :: string
  x_created :: 't
  x_modified :: 't
  x_md5 :: string
  x_size :: int
  x_status :: string

definition Folder_eq :: "'t Folder \<Rightarrow> 't Folder \<Rightarrow> bool" where
  "Folder_eq f ef =
     (f_id f = f_id ef \<and> f_name f = f_name ef \<and> f_created f = f_created ef
      \<and> f_modified f = f_modified ef \<and> f_status f = f_status ef)"

definition File_eq :: "'t File \<Rightarrow> 't File \<Rightarrow> bool" where
  "File_eq f ef =
     (x_id f = x_id ef \<and> x_name f = x_name ef \<and> x_created f = x_created ef
      \<and> x_modified f = x_modified ef \<and> x_md5 f = x_md5 ef \<and> x_size f = x_size ef
      \<and> x_status f = x_status ef)"

definition Folder_of :: "(string \<Rightarrow> 't) \<Rightarrow> listing_folder \<Rightarrow> 't Folder" where
  "Folder_of parse folder =
     \<lparr>f_id = lf_id folder, f_name = lf_name folder,
      f_created = parse (lf_createdDate folder), f_modified = parse (lf_modifiedDate folder),
      f_status = lf_status folder\<rparr>"

definition File_of :: "(string \<Rightarrow> 't) \<Rightarrow> listing_file \<Rightarrow> 't File" where
  "File_of parse file =
     \<lparr>x_id = li_id file, x_name = li_name file,
      x_created = parse (li_createdDate file), x_modified = parse (li_modifiedDate file),
      x_md5 = li_md5 file, x_size = li_size file, x_status = li_status file\<rparr>"

subsection \<open>The session\<close>

text \<open>
  Modelled from the spec: \<^verbatim>\<open>db.session\<close>, the unit of work of the object-relational
  mapper over the two tables "keyed by opaque id" of section 6. \<open>committed\<close> is the
  database as of the last commit, \<open>rows\<close> the rows of the open transaction as of the last
  flush, and the four lists are the objects added (\<^verbatim>\<open>session.add\<close>) and the ids of the
  objects marked deleted (\<^verbatim>\<open>session.delete\<close>) since then. \<open>parentage\<close> is the edge
  table, which \<^verbatim>\<open>insert_folders\<close> writes through a connection of its own.

  A rollback drops what is pending and returns to the committed rows. A flush deletes the
  marked rows and inserts the added objects; the constraint it can violate is the primary
  key of a table, and then it raises \<^verbatim>\<open>IntegrityError\<close> and the transaction is rolled
  back with it ("on any constraint violation during commit, the whole batch transaction is
  rolled back", section 4.2). A query flushes first, except inside
  \<^verbatim>\<open>with db.session.no_autoflush\<close>; a commit flushes and makes the rows the committed
  ones.
\<close>

record 't tables =
  folders :: "'t Folder list"
  files :: "'t File list"

record 't session =
  committed :: "'t tables"
  rows :: "'t tables"
  new_folders :: "'t Folder list"
  del_folders :: "string list"
  new_files :: "'t File list"
  del_files :: "string list"
  parentage :: "(string \<times> string) list"

datatype db_error = IntegrityError | ValueError

definition pk_ok :: "'t tables \<Rightarrow> bool" where
  "pk_ok t = (distinct (map f_id (folders t)) \<and> distinct (map x_id (files t)))"

definition pending_applied :: "'t session \<Rightarrow> 't tables" where
  "pending_applied s =
     \<lparr>folders = filter (\<lambda>r. f_id r \<notin> set (del_folders s)) (folders (rows s)) @ new_folders s,
      files = filter (\<lambda>r. x_id r \<notin> set (del_files s)) (files (rows s)) @ new_files s\<rparr>"

definition rollback :: "'t session \<Rightarrow> 't session" where
  "rollback s = s\<lparr>rows := committed s, new_folders := [], del_folders := [],
                  new_files := [], del_files := []\<rparr>"

definition flush :: "'t session \<Rightarrow> (db_error + unit) \<times> 't session" where
  "flush s =
     (if pk_ok (pending_applied s)
      then (Inr (), s\<lparr>rows := pending_applied s, new_folders := [], del_folders := [],
                      new_files := [], del_files := []\<rparr>)
      else (Inl IntegrityError, rollback s))"

definition commit :: "'t session \<Rightarrow> (db_error + unit) \<times> 't session" where
  "commit s =
     (case flush s of
        (Inl e, s') \<Rightarrow> (Inl e, s')
      | (Inr u, s') \<Rightarrow> (Inr (), s'\<lparr>committed := rows s'\<rparr>))"

text \<open>A session between two transactions: nothing pending, the rows are the committed ones.\<close>

definition clean :: "'t session \<Rightarrow> bool" where
  "clean s = (rows s = committed s \<and> new_folders s = [] \<and> del_folders s = []
              \<and> new_files s = [] \<and> del_files s = [])"

definition empty_session :: "'t session" where
  "empty_session =
     \<lparr>committed = \<lparr>folders = [], files = []\<rparr>, rows = \<lparr>folders = [], files = []\<rparr>,
      new_folders = [], del_folders = [], new_files = [], del_files = [], parentage = []\<rparr>"

subsection \<open>insert_folders and insert_files\<close>

text \<open>
  The four counters of both functions, and \<^verbatim>\<open>str\<close> of a count. The functions return
  nothing; the model returns the counters, which the source prints when positive.
\<close>

record counters =
  ins :: nat
  dup :: nat
  upd :: nat
  dtd :: nat

definition no_changes :: counters where
  "no_changes = \<lparr>ins = 0, dup = 0, upd = 0, dtd = 0\<rparr>"

definition digit :: "nat \<Rightarrow> char" where
  "digit n = ''0123456789'' ! n"

fun str :: "nat \<Rightarrow> string" where
  "str n = (if n < 10 then [digit n] else str (n div 10) @ [digit (n mod 10)])"

declare str.simps [simp del]

text \<open>
  Lines 29 to 49 of \<^verbatim>\<open>insert_folders\<close>: the query of each iteration flushes what the
  iteration before added and deleted. An \<^verbatim>\<open>IntegrityError\<close> of that flush is raised
  outside the \<^verbatim>\<open>try\<close> and leaves the function. The pairs collected in \<^verbatim>\<open>parents\<close> are
  computed from the listing by \<open>parent_edges\<close> below.
\<close>

fun folders_loop ::
  "(string \<Rightarrow> 't) \<Rightarrow> listing_folder list \<Rightarrow> counters \<Rightarrow> 't session
     \<Rightarrow> (db_error + counters) \<times> 't session" where
  "folders_loop parse [] c s = (Inr c, s)"
| "folders_loop parse (folder # rest) c s =
     (let f = Folder_of parse folder in
      case flush s of
        (Inl e, s1) \<Rightarrow> (Inl e, s1)
      | (Inr u, s1) \<Rightarrow>
          (case find (\<lambda>r. f_id r = lf_id folder) (folders (rows s1)) of
             None \<Rightarrow>
               folders_loop parse rest (c\<lparr>ins := ins c + 1\<rparr>)
                 (s1\<lparr>new_folders := new_folders s1 @ [f]\<rparr>)
           | Some ef \<Rightarrow>
               folders_loop parse rest
                 (if Folder_eq f ef then c\<lparr>dup := dup c + 1\<rparr> else c\<lparr>upd := upd c + 1\<rparr>)
                 (s1\<lparr>del_folders := del_folders s1 @ [f_id ef],
                     new_folders := new_folders s1 @ [f]\<rparr>)))"

text \<open>Lines 52 to 58: every stored folder whose id no record of the listing has is deleted.\<close>

fun folders_prune ::
  "listing_folder list \<Rightarrow> 't Folder list \<Rightarrow> counters \<Rightarrow> 't session \<Rightarrow> counters \<times> 't session" where
  "folders_prune listing [] c s = (c, s)"
| "folders_prune listing (db_folder # others) c s =
     (if f_id db_folder \<in> set (map lf_id listing) then folders_prune listing others c s
      else folders_prune listing others (c\<lparr>dtd := dtd c + 1\<rparr>)
             (s\<lparr>del_folders := del_folders s @ [f_id db_folder]\<rparr>))"

text \<open>Lines 75 to 78: \<^verbatim>\<open>INSERT OR IGNORE INTO parentage VALUES (p, rel[0])\<close>.\<close>

definition insert_or_ignore :: "'a \<Rightarrow> 'a list \<Rightarrow> 'a list" where
  "insert_or_ignore e es = (if e \<in> set es then es else es @ [e])"

definition parent_edges :: "listing_folder list \<Rightarrow> (string \<times> string) list" where
  "parent_edges listing =
     concat (map (\<lambda>folder. map (\<lambda>p. (p, lf_id folder)) (lf_parents folder)) listing)"

definition folder_messages :: "counters \<Rightarrow> string list" where
  "folder_messages c =
     (if ins c > 0 then [str (ins c) @ '' folder(s) inserted.''] else [])
     @ (if upd c > 0 then [str (upd c) @ '' folder(s) updated.''] else [])
     @ (if dtd c > 0 then [str (dtd c) @ '' folder(s) deleted.''] else [])"

text \<open>
  \<^verbatim>\<open>insert_folders(folders, partial)\<close>. The result is the exception that leaves the
  function or the counters, the session, and the lines printed. The handler of the commit
  is \<^verbatim>\<open>except IntegrityError\<close>.
\<close>

definition insert_folders ::
  "(string \<Rightarrow> 't) \<Rightarrow> listing_folder list \<Rightarrow> bool \<Rightarrow> 't session
     \<Rightarrow> (db_error + counters) \<times> 't session \<times> string list" where
  "insert_folders parse listing partial s =
     (case folders_loop parse listing no_changes s of
        (Inl e, s1) \<Rightarrow> (Inl e, s1, [])
      | (Inr c1, s1) \<Rightarrow>
          (case (if partial then (Inr c1, s1)
                 else case flush s1 of
                        (Inl e, s2) \<Rightarrow> (Inl e, s2)
                      | (Inr u, s2) \<Rightarrow>
                          (case folders_prune listing (folders (rows s2)) c1 s2 of
                             (c2, s3) \<Rightarrow> (Inr c2, s3))) of
             (Inl e, s2) \<Rightarrow> (Inl e, s2, [])
           | (Inr c2, s2) \<Rightarrow>
               (case (case commit s2 of
                        (Inl IntegrityError, s3) \<Rightarrow>
                          (Inr [''Error inserting folders.''], rollback s3)
                      | (Inl e, s3) \<Rightarrow> (Inl e, s3)
                      | (Inr u, s3) \<Rightarrow> (Inr [], s3)) of
                  (Inl e, s3) \<Rightarrow> (Inl e, s3, [])
                | (Inr out, s3) \<Rightarrow>
                    (Inr c2,
                     s3\<lparr>parentage := foldl (\<lambda>es e. insert_or_ignore e es) (parentage s3)
                                        (parent_edges listing)\<rparr>,
                     out @ folder_messages c2))))"

text \<open>
  Lines 109 to 112 of \<^verbatim>\<open>insert_files\<close>: the warning for each parent id that no stored
  folder has.
\<close>

fun parents_warnings :: "'t Folder list \<Rightarrow> string \<Rightarrow> string list \<Rightarrow> string list" where
  "parents_warnings fs name [] = []"
| "parents_warnings fs name (p # ps) =
     (case find (\<lambda>r. f_id r = p) fs of
        None \<Rightarrow> [''Parent folder of ['' @ name @ ''] not found.'']
      | Some p_folder \<Rightarrow> [])
     @ parents_warnings fs name ps"

text \<open>
  Lines 88 to 114, inside \<^verbatim>\<open>with db.session.no_autoflush\<close>: no query flushes, so every
  lookup reads the rows as they were when the loop began.
\<close>

fun files_loop ::
  "(string \<Rightarrow> 't) \<Rightarrow> listing_file list \<Rightarrow> counters \<Rightarrow> 't session \<Rightarrow> string list
     \<Rightarrow> counters \<times> 't session \<times> string list" where
  "files_loop parse [] c s out = (c, s, out)"
| "files_loop parse (file # rest) c s out =
     (let f = File_of parse file;
          warnings = parents_warnings (folders (rows s)) (x_name f) (li_parents file) in
      case find (\<lambda>r. x_id r = li_id file) (files (rows s)) of
        None \<Rightarrow>
          files_loop parse rest (c\<lparr>ins := ins c + 1\<rparr>)
            (s\<lparr>new_files := new_files s @ [f]\<rparr>) (out @ warnings)
      | Some ef \<Rightarrow>
          files_loop parse rest
            (if File_eq f ef then c\<lparr>dup := dup c + 1\<rparr> else c\<lparr>upd := upd c + 1\<rparr>)
            (s\<lparr>del_files := del_files s @ [x_id ef], new_files := new_files s @ [f]\<rparr>)
            (out @ warnings))"

text \<open>Lines 117 to 124.\<close>

fun files_prune ::
  "listing_file list \<Rightarrow> 't File list \<Rightarrow> counters \<Rightarrow> 't session \<Rightarrow> counters \<times> 't session" where
  "files_prune listing [] c s = (c, s)"
| "files_prune listing (db_file # others) c s =
     (if list_ex (\<lambda>file. x_id db_file = li_id file) listing then files_prune listing others c s
      else files_prune listing others (c\<lparr>dtd := dtd c + 1\<rparr>)
             (s\<lparr>del_files := del_files s @ [x_id db_file]\<rparr>))"

definition file_messages :: "counters \<Rightarrow> string list" where
  "file_messages c =
     (if ins c > 0 then [str (ins c) @ '' file(s) inserted.''] else [])
     @ (if upd c > 0 then [str (upd c) @ '' file(s) updated.''] else [])
     @ (if dtd c > 0 then [str (dtd c) @ '' file(s) deleted.''] else [])"

text \<open>
  \<^verbatim>\<open>insert_files(files, partial)\<close>. The query of line 117 is outside the
  \<^verbatim>\<open>no_autoflush\<close> block and flushes; the handler of the commit is
  \<^verbatim>\<open>except ValueError\<close>, so an \<^verbatim>\<open>IntegrityError\<close> of the commit leaves the function.
\<close>

definition insert_files ::
  "(string \<Rightarrow> 't) \<Rightarrow> listing_file list \<Rightarrow> bool \<Rightarrow> 't session
     \<Rightarrow> (db_error + counters) \<times> 't session \<times> string list" where
  "insert_files parse listing partial s =
     (case files_loop parse listing no_changes s [] of
        (c1, s1, out1) \<Rightarrow>
          (case (if partial then (Inr c1, s1)
                 else case flush s1 of
                        (Inl e, s2) \<Rightarrow> (Inl e, s2)
                      | (Inr u, s2) \<Rightarrow>
                          (case files_prune listing (files (rows s2)) c1 s2 of
                             (c2, s3) \<Rightarrow> (Inr c2, s3))) of
             (Inl e, s2) \<Rightarrow> (Inl e, s2, out1)
           | (Inr c2, s2) \<Rightarrow>
               (case (case commit s2 of
                        (Inl ValueError, s3) \<Rightarrow>
                          (Inr [''Error inserting files.''], rollback s3)
                      | (Inl e, s3) \<Rightarrow> (Inl e, s3)
                      | (Inr u, s3) \<Rightarrow> (Inr [], s3)) of
                  (Inl e, s3) \<Rightarrow> (Inl e, s3, out1)
                | (Inr out, s3) \<Rightarrow> (Inr c2, s3, out1 @ out @ file_messages c2))))"

text \<open>
  The last two lines of \<^verbatim>\<open>sync_node_list\<close> in \<^verbatim>\<open>acd_cli.py\<close>, the full reconciliation:
  \<^verbatim>\<open>sync.insert_folders(folders)\<close>, then \<^verbatim>\<open>sync.insert_files(files)\<close>, on the two merged
  listings that the lines before have fetched.
\<close>

definition sync_node_list ::
  "(string \<Rightarrow> 't) \<Rightarrow> listing_folder list \<Rightarrow> listing_file list \<Rightarrow> 't session
     \<Rightarrow> (db_error + counters \<times> counters) \<times> 't session \<times> string list" where
  "sync_node_list parse folders_listing files_listing s =
     (case insert_folders parse folders_listing False s of
        (Inl e, s1, out1) \<Rightarrow> (Inl e, s1, out1)
      | (Inr c1, s1, out1) \<Rightarrow>
          (case insert_files parse files_listing False s1 of
             (Inl e, s2, out2) \<Rightarrow> (Inl e, s2, out1 @ out2)
           | (Inr c2, s2, out2) \<Rightarrow> (Inr (c1, c2), s2, out1 @ out2)))"

text \<open>
  Used in the proofs: what one iteration of \<open>folders_loop\<close> does to the folder rows, a
  session with no file pending, and the ids that \<open>files_loop\<close> marks deleted.
\<close>

definition upsert1 :: "'t Folder list \<Rightarrow> 't Folder \<Rightarrow> 't Folder list" where
  "upsert1 E f = filter (\<lambda>r. f_id r \<noteq> f_id f) E @ [f]"

definition folders_only :: "'t session \<Rightarrow> bool" where
  "folders_only s = (new_files s = [] \<and> del_files s = [])"

definition found_ids :: "'t File list \<Rightarrow> listing_file list \<Rightarrow> string list" where
  "found_ids E fl = filter (\<lambda>i. i \<in> x_id ` set E) (map li_id fl)"

subsection \<open>Example listings\<close>

text \<open>
  The scenario of section 8 of the specification with a second, trashed file; the same
  listing without the first file; a folder listing and a file listing that hold one id
  twice, as the merged listings do when a node is trashed between the fetch of the active
  and the fetch of the trashed nodes.
\<close>

definition example_folder :: "string \<Rightarrow> string \<Rightarrow> string \<Rightarrow> listing_folder" where
  "example_folder i name status =
     \<lparr>lf_id = i, lf_name = Some name, lf_createdDate = ''2015-01-01T00:00:00Z'',
      lf_modifiedDate = ''2015-01-02T00:00:00Z'', lf_status = status, lf_parents = []\<rparr>"

definition example_file :: "string \<Rightarrow> string \<Rightarrow> string \<Rightarrow> string list \<Rightarrow> listing_file" where
  "example_file i name status ps =
     \<lparr>li_id = i, li_name = name, li_createdDate = ''2015-01-01T00:00:00Z'',
      li_modifiedDate = ''2015-01-02T00:00:00Z'', li_md5 = ''abc'', li_size = 10,
      li_status = status, li_parents = ps\<rparr>"

definition first_listing :: "listing_folder list \<times> listing_file list" where
  "first_listing =
     ([example_folder ''F1'' ''docs'' ''AVAILABLE''],
      [example_file ''X1'' ''a.txt'' ''AVAILABLE'' [''F1''],
       example_file ''X2'' ''b.txt'' ''TRASH'' [''F1'']])"

definition second_listing :: "listing_folder list \<times> listing_file list" where
  "second_listing =
     ([example_folder ''F1'' ''docs'' ''AVAILABLE''],
      [example_file ''X2'' ''b.txt'' ''TRASH'' [''F1'']])"

definition first_synced :: "string session" where
  "first_synced =
     fst (snd (sync_node_list (\<lambda>d. d) (fst first_listing) (snd first_listing) empty_session))"

definition twice_listed :: "listing_folder list" where
  "twice_listed =
     [example_folder ''F1'' ''docs'' ''AVAILABLE'', example_folder ''F1'' ''docs'' ''TRASH'']"

definition listed_twice_file :: "listing_file list" where
  "listed_twice_file =
     [example_file ''X1'' ''a.txt'' ''AVAILABLE'' [], example_file ''X1'' ''a.txt'' ''TRASH'' []]"

section \<open>Properties of the write proxy\<close>

lemma WriteStream_write_offset:
  "ws_offset (snd (WriteStream_write s d)) =
     ws_offset s + (if fst (WriteStream_write s d) = Inr () then int (length d) else 0)"
  by (simp add: WriteStream_write_def)

lemma stream_step_offset:
  "ws_offset (stream_step s x) = ws_offset s + buffered s [x]"
  by (cases x) (auto simp: WriteStream_write_def WriteStream_read_def write_n_sync_def
      split: sum.splits)

lemma buffered_Cons: "buffered s (x # ops) = buffered s [x] + buffered (stream_step s x) ops"
  by (cases x) simp_all

lemma foldl_stream_step_offset:
  "ws_offset (foldl stream_step s ops) = ws_offset s + buffered s ops"
proof (induction ops arbitrary: s)
  case Nil
  show ?case by simp
next
  case (Cons x ops)
  have "ws_offset (foldl stream_step s (x # ops)) =
        ws_offset (stream_step s x) + buffered (stream_step s x) ops"
    using Cons.IH [of "stream_step s x"] by simp
  also have "\<dots> = ws_offset s + buffered s [x] + buffered (stream_step s x) ops"
    by (simp only: stream_step_offset)
  also have "\<dots> = ws_offset s + buffered s (x # ops)"
    using buffered_Cons [of s x ops] by simp
  finally show ?case .
qed

lemma WriteStream_write_state:
  "snd (WriteStream_write s d) =
     (if fst (WriteStream_write s d) = Inr ()
      then s\<lparr>ws_q := ws_q s @ [d], ws_offset := ws_offset s + int (length d)\<rparr>
      else s)"
  by (simp add: WriteStream_write_def)

lemma buffered_written: "buffered s ops = int (length (written s ops))"
  by (induction s ops rule: buffered.induct) simp_all

lemma queue_is_fifo:
  "concat (ws_q s) @ written s ops = taken s ops @ concat (ws_q (foldl stream_step s ops))"
proof (induction ops arbitrary: s)
  case Nil
  show ?case by simp
next
  case (Cons x ops)
  show ?case
  proof (cases x)
    case (Write d)
    have "concat (ws_q s) @ (if fst (WriteStream_write s d) = Inr () then d else [])
          = concat (ws_q (stream_step s (Write d)))"
      by (simp add: WriteStream_write_def)
    then have "concat (ws_q s) @ written s (Write d # ops)
               = concat (ws_q (stream_step s (Write d))) @ written (stream_step s (Write d)) ops"
      by simp
    with Cons.IH [of "stream_step s (Write d)"] Write show ?thesis by simp
  next
    case Read
    have "concat (ws_q s)
          = (case fst (WriteStream_read s) of Some (Inr b) \<Rightarrow> b | _ \<Rightarrow> [])
            @ concat (ws_q (stream_step s Read))"
      by (simp add: WriteStream_read_def)
    then have "concat (ws_q s) @ written s (Read # ops)
               = (case fst (WriteStream_read s) of Some (Inr b) \<Rightarrow> b | _ \<Rightarrow> [])
                 @ concat (ws_q (stream_step s Read)) @ written (stream_step s Read) ops"
      by simp
    with Cons.IH [of "stream_step s Read"] Read show ?thesis by simp
  next
    case (Uploaded r)
    have "ws_q (stream_step s (Uploaded r)) = ws_q s"
      by (simp add: write_n_sync_def split: sum.splits)
    with Cons.IH [of "stream_step s (Uploaded r)"] Uploaded show ?thesis by simp
  qed
qed

text \<open>
  C8. The expected next-write offset of a stream is the total length of the bytes buffered
  so far. One write that returns appends its data to the queue and adds exactly the length
  of the data to the offset; one that raises (on the error flag, or on a full queue) leaves
  the stream, queue and offset, as it was. From a new stream, after any history of writes,
  uploader reads and upload results, \<open>ws_offset\<close> is the sum of the lengths of the writes
  that returned, which is the length of their data; and that data, in the order it was
  written, is what the uploader has read so far followed by what the queue still holds.
\<close>

theorem write_stream_offset_is_buffered_length:
  "ws_offset (foldl stream_step WriteStream_init ops) = buffered WriteStream_init ops
   \<and> ws_offset (snd (WriteStream_write s d)) =
       ws_offset s + (if fst (WriteStream_write s d) = Inr () then int (length d) else 0)
   \<and> (fst (WriteStream_write s d) = Inr ()) = (\<not> ws_error s \<and> length (ws_q s) < WRITE_BUFFER_SZ)
   \<and> (fst (WriteStream_write s d) = Inl EREMOTEIO) = ws_error s
   \<and> (fst (WriteStream_write s d) = Inl ETIMEDOUT) =
       (\<not> ws_error s \<and> WRITE_BUFFER_SZ \<le> length (ws_q s))
   \<and> snd (WriteStream_write s d) =
       (if fst (WriteStream_write s d) = Inr ()
        then s\<lparr>ws_q := ws_q s @ [d], ws_offset := ws_offset s + int (length d)\<rparr>
        else s)
   \<and> ws_offset (foldl stream_step WriteStream_init ops)
       = int (length (written WriteStream_init ops))
   \<and> written WriteStream_init ops
       = taken WriteStream_init ops @ concat (ws_q (foldl stream_step WriteStream_init ops))"
proof -
  have e: "snd (WriteStream_write s d) =
       (if fst (WriteStream_write s d) = Inr ()
        then s\<lparr>ws_q := ws_q s @ [d], ws_offset := ws_offset s + int (length d)\<rparr>
        else s)"
    by (rule WriteStream_write_state)
  have g: "written WriteStream_init ops
       = taken WriteStream_init ops @ concat (ws_q (foldl stream_step WriteStream_init ops))"
    using queue_is_fifo [of WriteStream_init ops] by (simp add: WriteStream_init_def)
  have "ws_offset (foldl stream_step WriteStream_init ops) =
        ws_offset WriteStream_init + buffered WriteStream_init ops"
    by (rule foldl_stream_step_offset)
  then have a: "ws_offset (foldl stream_step WriteStream_init ops) = buffered WriteStream_init ops"
    by (simp add: WriteStream_init_def)
  have b: "(fst (WriteStream_write s d) = Inr ()) =
           (\<not> ws_error s \<and> length (ws_q s) < WRITE_BUFFER_SZ)"
    by (auto simp: WriteStream_write_def)
  have c: "(fst (WriteStream_write s d) = Inl EREMOTEIO) = ws_error s"
    by (auto simp: WriteStream_write_def)
  have d: "(fst (WriteStream_write s d) = Inl ETIMEDOUT) =
           (\<not> ws_error s \<and> WRITE_BUFFER_SZ \<le> length (ws_q s))"
    by (auto simp: WriteStream_write_def)
  from a have f: "ws_offset (foldl stream_step WriteStream_init ops)
       = int (length (written WriteStream_init ops))"
    by (simp only: buffered_written)
  from a WriteStream_write_offset [of s d] b c d e f g show ?thesis by blast
qed

text \<open>
  Two blocks written, read by the uploader, a third block written: offset 7, the uploader
  has taken the first five bytes, and the queue holds the last two.
\<close>

theorem write_stream_offset_witness:
  "ws_offset (foldl stream_step WriteStream_init [Write ''ab'', Write ''cde'', Read, Write ''fg''])
     = 7
   \<and> written WriteStream_init [Write ''ab'', Write ''cde'', Read, Write ''fg''] = ''abcdefg''
   \<and> taken WriteStream_init [Write ''ab'', Write ''cde'', Read, Write ''fg''] = ''abcde''
   \<and> ws_q (foldl stream_step WriteStream_init [Write ''ab'', Write ''cde'', Read, Write ''fg''])
     = [''fg'']
   \<and> ws_q (snd (WriteStream_write WriteStream_init ''ab'')) = [''ab'']"
  using write_stream_offset_is_buffered_length
    [of "[Write ''ab'', Write ''cde'', Read, Write ''fg'']" WriteStream_init "''ab''"]
  by (simp add: WriteStream_init_def WriteStream_write_def WriteStream_read_def
      WRITE_BUFFER_SZ_def)

lemma errored_write:
  assumes "errored wp fh"
  shows "isl (fst (WriteProxy_write wp n fh off d))"
    and "errored (snd (WriteProxy_write wp n fh off d)) fh"
proof -
  from assms obtain f where f: "wp_files wp fh = Some f" "ws_error f"
    by (auto simp: errored_def split: option.splits)
  then have w: "WriteStream_write f d = (Inl EREMOTEIO, f)"
    by (simp add: WriteStream_write_def)
  from f w show "isl (fst (WriteProxy_write wp n fh off d))"
    by (simp add: WriteProxy_write_def files_getitem_def Let_def)
  from f w show "errored (snd (WriteProxy_write wp n fh off d)) fh"
    by (simp add: WriteProxy_write_def files_getitem_def Let_def errored_def)
qed

lemma errored_other_write:
  "fh' \<noteq> fh \<Longrightarrow> errored (snd (WriteProxy_write wp n fh' off d)) fh = errored wp fh"
  by (simp add: WriteProxy_write_def Let_def errored_def split: prod.splits sum.splits)

lemma errored_step:
  assumes "errored wp fh"
  shows "errored (snd (proxy_step wp x)) fh"
proof (cases x)
  case (WpWrite n fh' off d)
  have "errored (snd (WriteProxy_write wp n fh' off d)) fh"
  proof (cases "fh' = fh")
    case True
    with assms errored_write(2) [of wp fh n off d] show ?thesis by simp
  next
    case False
    with assms errored_other_write [of fh' fh wp n off d] show ?thesis by simp
  qed
  with WpWrite show ?thesis by (simp add: split_beta)
next
  case (WpRead fh')
  with assms show ?thesis
    by (auto simp: errored_def WriteStream_read_def split: option.splits)
next
  case (WpUploaded fh' r)
  with assms show ?thesis
    by (auto simp: errored_def write_n_sync_def split: option.splits sum.splits)
qed

lemma errored_step_failed:
  assumes "errored wp fh" and "write_on fh x"
  shows "failed (fst (proxy_step wp x))"
proof (cases x)
  case (WpWrite n fh' off d)
  with assms(2) have "fh' = fh" by simp
  with WpWrite errored_write(1) [OF assms(1), of n off d] show ?thesis
    by (cases "WriteProxy_write wp n fh off d") (auto simp: failed_def isl_def)
qed (use assms(2) in simp_all)

lemma errored_run:
  "errored wp fh \<Longrightarrow> (x, r) \<in> set (proxy_run wp ops) \<Longrightarrow> write_on fh x \<Longrightarrow> failed r"
proof (induction ops arbitrary: wp)
  case Nil
  then show ?case by simp
next
  case (Cons y ops)
  obtain r' wp' where st: "proxy_step wp y = (r', wp')" by (cases "proxy_step wp y")
  from Cons.prems(1) have e': "errored wp' fh"
    using errored_step [of wp fh y] st by simp
  from Cons.prems(2) st consider "x = y" "r = r'" | "(x, r) \<in> set (proxy_run wp' ops)"
    by auto
  then show ?case
  proof cases
    case 1
    with Cons.prems(1,3) errored_step_failed [of wp fh y] st show ?thesis by simp
  next
    case 2
    with Cons.IH [OF e'] Cons.prems(3) show ?thesis by simp
  qed
qed

lemma mismatch_write:
  assumes "ws_offset (files_getitem (wp_files wp) fh) \<noteq> offset"
  shows "fst (WriteProxy_write wp n fh offset d) = Inl ESPIPE"
    and "errored (snd (WriteProxy_write wp n fh offset d)) fh"
  using assms by (simp_all add: WriteProxy_write_def Let_def errored_def)

lemma fresh_two_writes:
  assumes "wp_files wp fh = None"
  shows "fst (WriteProxy_write wp n1 fh 0 d1) = Inr ()"
    and "fst (WriteProxy_write (snd (WriteProxy_write wp n1 fh 0 d1)) n2 fh (int (length d1)) d2)
           = Inr ()"
  using assms
  by (simp_all add: WriteProxy_write_def Let_def files_getitem_def WriteStream_init_def
      WriteStream_write_def WRITE_BUFFER_SZ_def)

text \<open>
  C4. A write whose offset differs from the expected next-write offset of the handle's
  stream raises \<open>ESPIPE\<close> and sets the stream's error flag; from then on, whatever write
  calls, uploader reads and upload results follow, every write on that handle raises. On a
  handle with no stream yet (expected offset 0), a write at offset 4096 raises \<open>ESPIPE\<close>,
  while a write at offset 0 followed by a write at the length of the first block both
  return.
\<close>

theorem write_at_wrong_offset_fails_and_sticks:
  "(ws_offset (files_getitem (wp_files wp) fh) \<noteq> offset \<longrightarrow>
      fst (WriteProxy_write wp n fh offset d) = Inl ESPIPE
    \<and> errored (snd (WriteProxy_write wp n fh offset d)) fh
    \<and> (\<forall>(x, r) \<in> set (proxy_run (snd (WriteProxy_write wp n fh offset d)) ops).
          write_on fh x \<longrightarrow> failed r))
   \<and> (wp_files wp fh = None \<longrightarrow>
      fst (WriteProxy_write wp n fh 4096 d) = Inl ESPIPE
    \<and> fst (WriteProxy_write wp n fh 0 d) = Inr ()
    \<and> fst (WriteProxy_write (snd (WriteProxy_write wp n fh 0 d)) n' fh (int (length d)) d')
        = Inr ())"
proof (intro conjI impI)
  assume m: "ws_offset (files_getitem (wp_files wp) fh) \<noteq> offset"
  show "fst (WriteProxy_write wp n fh offset d) = Inl ESPIPE"
    by (rule mismatch_write(1) [OF m])
  show e: "errored (snd (WriteProxy_write wp n fh offset d)) fh"
    by (rule mismatch_write(2) [OF m])
  show "\<forall>(x, r) \<in> set (proxy_run (snd (WriteProxy_write wp n fh offset d)) ops).
          write_on fh x \<longrightarrow> failed r"
    using errored_run [OF e] by blast
next
  assume f: "wp_files wp fh = None"
  then have "ws_offset (files_getitem (wp_files wp) fh) \<noteq> 4096"
    by (simp add: files_getitem_def WriteStream_init_def)
  then show "fst (WriteProxy_write wp n fh 4096 d) = Inl ESPIPE"
    by (rule mismatch_write(1))
  show "fst (WriteProxy_write wp n fh 0 d) = Inr ()"
    by (rule fresh_two_writes(1) [OF f])
  show "fst (WriteProxy_write (snd (WriteProxy_write wp n fh 0 d)) n' fh (int (length d)) d')
        = Inr ()"
    by (rule fresh_two_writes(2) [OF f])
qed

theorem write_at_wrong_offset_witness:
  "ws_offset (files_getitem (wp_files WriteProxy_init) 2) \<noteq> 4096
   \<and> wp_files WriteProxy_init 2 = None
   \<and> fst (WriteProxy_write WriteProxy_init ''id'' 2 4096 ''ab'') = Inl ESPIPE
   \<and> map snd (proxy_run (snd (WriteProxy_write WriteProxy_init ''id'' 2 4096 ''ab''))
        [WpWrite ''id'' 2 0 ''ab'', WpWrite '''' 2 2 ''cd''])
       = [Some (Inl EREMOTEIO), Some (Inl ESPIPE)]
   \<and> fst (WriteProxy_write WriteProxy_init ''id'' 2 0 ''ab'') = Inr ()
   \<and> fst (WriteProxy_write (snd (WriteProxy_write WriteProxy_init ''id'' 2 0 ''ab''))
        '''' 2 (int (length ''ab'')) ''cd'') = Inr ()"
  using write_at_wrong_offset_fails_and_sticks
    [of WriteProxy_init 2 4096 "''id''" "''ab''" "[]" "''''" "''cd''"]
  by (simp add: WriteProxy_init_def WriteProxy_write_def files_getitem_def Let_def
      WriteStream_init_def WriteStream_write_def WRITE_BUFFER_SZ_def)

section \<open>Read proxy properties\<close>

lemma StreamChunk_get_r: "sc_r (fst (snd (StreamChunk_get streams c len))) = sc_r c"
  by (simp add: StreamChunk_get_def Let_def)

lemma map_update_same: "(map f xs)[k := f (xs ! k)] = map f xs"
  by (cases "k < length xs") (simp_all add: list_update_same_conv list_update_beyond)

lemma StreamChunk_get_closed:
  "map r_closed (snd (snd (StreamChunk_get streams c len))) = map r_closed streams"
  by (simp add: StreamChunk_get_def Let_def map_update map_update_same)

lemma length_deque_remove: "i < length xs \<Longrightarrow> length (deque_remove i xs) = length xs - 1"
  by (simp add: deque_remove_def)

lemma subseq_deque_remove: "subseq (deque_remove i xs) xs"
  by (induction xs arbitrary: i)
     (auto simp: deque_remove_def take_Cons drop_Cons split: nat.splits)

lemma search_props:
  "i \<le> length chunks \<Longrightarrow> search streams chunks i offset len = (r, chunks', streams') \<Longrightarrow>
     length chunks' \<le> length chunks
     \<and> subseq (map sc_r chunks') (map sc_r chunks)
     \<and> map r_closed streams' = map r_closed streams"
proof (induction streams chunks i offset len arbitrary: r chunks' streams' rule: search.induct)
  case (1 streams chunks offset len)
  then show ?case by simp
next
  case (2 streams chunks i offset len)
  let ?c = "chunks ! i"
  show ?case
  proof (cases "has_byte_range ?c offset len")
    case False
    with 2 show ?thesis by simp
  next
    case True
    obtain res c' s' where g: "StreamChunk_get streams ?c len = (res, c', s')"
      by (cases "StreamChunk_get streams ?c len") auto
    have cl: "map r_closed s' = map r_closed streams"
      using StreamChunk_get_closed [of streams ?c len] g by simp
    have rr: "sc_r c' = sc_r ?c"
      using StreamChunk_get_r [of streams ?c len] g by simp
    show ?thesis
    proof (cases res)
      case (Inl e)
      from "2.prems"(1) have il: "i \<le> length (deque_remove i chunks)"
        by (simp add: length_deque_remove)
      from "2.prems"(2) True g Inl
      have "search s' (deque_remove i chunks) i offset len = (r, chunks', streams')"
        by simp
      from "2.IH"(1) [OF refl True g [symmetric] Inl refl il this]
      have ih: "length chunks' \<le> length (deque_remove i chunks)"
        "subseq (map sc_r chunks') (map sc_r (deque_remove i chunks))"
        "map r_closed streams' = map r_closed s'"
        by simp_all
      have "subseq (map sc_r (deque_remove i chunks)) (map sc_r chunks)"
        by (rule subseq_map) (rule subseq_deque_remove)
      with ih cl "2.prems"(1) show ?thesis
        by (auto simp: length_deque_remove intro: subseq_order.order_trans)
    next
      case (Inr b)
      from "2.prems"(2) True g Inr
      have e: "chunks' = chunks[i := c']" "streams' = s'" by simp_all
      have "map sc_r (chunks[i := c']) = map sc_r chunks"
        using rr "2.prems"(1) by (simp add: map_update list_update_same_conv)
      with e cl show ?thesis by simp
    qed
  qed
qed

lemma length_deque_append:
  "length xs \<le> MAX_CHUNKS_PER_FILE \<Longrightarrow> length (deque_append xs x) \<le> MAX_CHUNKS_PER_FILE"
  by (auto simp: deque_append_def MAX_CHUNKS_PER_FILE_def)

lemma map_deque_append: "map f (deque_append xs x) = deque_append (map f xs) (f x)"
  by (simp add: deque_append_def map_tl)

lemma ReadFile_get_props:
  assumes "ReadFile_get env streams rf nid offset len tot = (r, rf', streams')"
  shows "length (rf_chunks rf) \<le> MAX_CHUNKS_PER_FILE
           \<longrightarrow> length (rf_chunks rf') \<le> MAX_CHUNKS_PER_FILE"
    and "\<exists>ks. subseq ks (map sc_r (rf_chunks rf))
           \<and> (map sc_r (rf_chunks rf') = ks
              \<or> map sc_r (rf_chunks rf') = deque_append ks (length streams))"
    and "take (length streams) (map r_closed streams') = map r_closed streams"
proof -
  obtain res chunks s1 where
    s: "search streams (rf_chunks rf) (length (rf_chunks rf)) offset len = (res, chunks, s1)"
    by (cases "search streams (rf_chunks rf) (length (rf_chunks rf)) offset len") auto
  from search_props [OF order_refl s]
  have sp: "length chunks \<le> length (rf_chunks rf)"
    "subseq (map sc_r chunks) (map sc_r (rf_chunks rf))"
    "map r_closed s1 = map r_closed streams"
    by simp_all
  from sp(3) have l1: "length s1 = length streams"
    by (metis length_map)
  show "length (rf_chunks rf) \<le> MAX_CHUNKS_PER_FILE
           \<longrightarrow> length (rf_chunks rf') \<le> MAX_CHUNKS_PER_FILE"
    using assms s sp(1)
    by (auto simp: ReadFile_get_def StreamChunk_init_def
        split: option.splits sum.splits prod.splits intro!: length_deque_append)
  show "\<exists>ks. subseq ks (map sc_r (rf_chunks rf))
           \<and> (map sc_r (rf_chunks rf') = ks
              \<or> map sc_r (rf_chunks rf') = deque_append ks (length streams))"
  proof (cases res)
    case (Some b)
    with assms s have "rf_chunks rf' = chunks" by (auto simp: ReadFile_get_def)
    with sp(2) show ?thesis by blast
  next
    case None
    show ?thesis
    proof (cases "response_chunk env nid offset (CHUNK_SZ env)")
      case (Inl e)
      with assms s None have "rf_chunks rf' = chunks"
        by (auto simp: ReadFile_get_def StreamChunk_init_def)
      with sp(2) show ?thesis by blast
    next
      case (Inr resp)
      let ?c = "\<lparr>sc_offset = offset, sc_r = length s1, sc_end = offset + content_length resp - 1\<rparr>"
      from assms s None Inr
      have "rf_chunks rf' = deque_append chunks (fst (snd (StreamChunk_get (s1 @ [resp]) ?c len)))"
        by (auto simp: ReadFile_get_def StreamChunk_init_def split: prod.splits)
      then have "map sc_r (rf_chunks rf') = deque_append (map sc_r chunks) (length streams)"
        using StreamChunk_get_r [of "s1 @ [resp]" ?c len] l1 by (simp add: map_deque_append)
      with sp(2) show ?thesis by blast
    qed
  qed
  show "take (length streams) (map r_closed streams') = map r_closed streams"
  proof (cases res)
    case (Some b)
    with assms s have "streams' = s1" by (auto simp: ReadFile_get_def)
    with sp(3) show ?thesis by simp
  next
    case None
    show ?thesis
    proof (cases "response_chunk env nid offset (CHUNK_SZ env)")
      case (Inl e)
      with assms s None have "streams' = s1"
        by (auto simp: ReadFile_get_def StreamChunk_init_def)
      with sp(3) show ?thesis by simp
    next
      case (Inr resp)
      let ?c = "\<lparr>sc_offset = offset, sc_r = length s1, sc_end = offset + content_length resp - 1\<rparr>"
      from assms s None Inr
      have "streams' = snd (snd (StreamChunk_get (s1 @ [resp]) ?c len))"
        by (auto simp: ReadFile_get_def StreamChunk_init_def split: prod.splits)
      then have "map r_closed streams' = map r_closed (s1 @ [resp])"
        using StreamChunk_get_closed [of "s1 @ [resp]" ?c len] by simp
      with sp(3) show ?thesis by simp
    qed
  qed
qed

lemma ReadFile_get_miss_at_capacity:
  assumes miss: "\<forall>c \<in> set (rf_chunks rf). \<not> has_byte_range c offset len"
    and full: "length (rf_chunks rf) = MAX_CHUNKS_PER_FILE"
    and opened: "response_chunk env nid offset (CHUNK_SZ env) = Inr resp"
    and g: "ReadFile_get env streams rf nid offset len tot = (r, rf', streams')"
  shows "map sc_r (rf_chunks rf') = tl (map sc_r (rf_chunks rf)) @ [length streams]"
proof -
  have "i \<le> length chunks \<Longrightarrow> \<forall>c \<in> set chunks. \<not> has_byte_range c offset len \<Longrightarrow>
        search streams chunks i offset len = (None, chunks, streams)" for i chunks
    by (induction i) (simp_all add: Let_def)
  from this [OF order_refl miss]
  have s: "search streams (rf_chunks rf) (length (rf_chunks rf)) offset len
           = (None, rf_chunks rf, streams)" .
  let ?c = "\<lparr>sc_offset = offset, sc_r = length streams, sc_end = offset + content_length resp - 1\<rparr>"
  from g s opened
  have "rf_chunks rf' = deque_append (rf_chunks rf) (fst (snd (StreamChunk_get (streams @ [resp]) ?c len)))"
    by (auto simp: ReadFile_get_def StreamChunk_init_def split: prod.splits)
  then have "map sc_r (rf_chunks rf') = deque_append (map sc_r (rf_chunks rf)) (length streams)"
    using StreamChunk_get_r [of "streams @ [resp]" ?c len] by (simp add: map_deque_append)
  with full show ?thesis by (simp add: deque_append_def)
qed

lemma bounded_step: "bounded rp \<Longrightarrow> bounded (read_step env rp x)"
proof (cases x)
  case (Get nid offset len tot)
  assume b: "bounded rp"
  let ?f = "case rp_files rp nid of Some f \<Rightarrow> f | None \<Rightarrow> ReadFile_init"
  obtain r f' s' where g: "ReadFile_get env (rp_streams rp) ?f nid offset len tot = (r, f', s')"
    by (cases "ReadFile_get env (rp_streams rp) ?f nid offset len tot") auto
  have "length (rf_chunks ?f) \<le> MAX_CHUNKS_PER_FILE"
    using b [unfolded bounded_def, rule_format, of nid]
    by (simp add: chunks_of_def ReadFile_init_def split: option.splits)
  with ReadFile_get_props(1) [OF g] have "length (rf_chunks f') \<le> MAX_CHUNKS_PER_FILE" by simp
  with b g Get show ?thesis
    by (auto simp: bounded_def chunks_of_def ReadProxy_get_def Let_def)
next
  case (Release nid)
  assume b: "bounded rp"
  show ?thesis unfolding bounded_def
  proof
    fix k
    show "length (chunks_of (read_step env rp x) k) \<le> MAX_CHUNKS_PER_FILE"
      using b [unfolded bounded_def, rule_format, of k] Release
      by (auto simp: chunks_of_def ReadProxy_release_def ReadFile_clear_def split: option.splits)
  qed
qed

lemma bounded_run: "bounded rp \<Longrightarrow> bounded (read_run rp xs)"
  by (induction rp xs rule: read_run.induct) (simp_all add: bounded_step)

lemma bounded_init: "bounded ReadProxy_init"
  by (simp add: bounded_def chunks_of_def ReadProxy_init_def)

text \<open>
  The bound and the order of eviction. After any history of reads and releases, the chunk
  collection of every node holds at most \<open>MAX_CHUNKS_PER_FILE = 15\<close> chunks. One
  \<^verbatim>\<open>ReadFile.get\<close> leaves the chunks it keeps in the order they were inserted in (being
  read from moves no chunk) and puts a new chunk at the newest end; when no chunk serves the
  range, the collection is full and the download opens, the oldest chunk is the one
  dropped. \<^verbatim>\<open>ReadFile.get\<close> calls \<^verbatim>\<open>close\<close> on no response: the flag of every response
  that existed before the call is unchanged.
\<close>

theorem chunks_bounded_oldest_evicted:
  "MAX_CHUNKS_PER_FILE = 15
   \<and> length (chunks_of (read_run ReadProxy_init xs) k) \<le> MAX_CHUNKS_PER_FILE
   \<and> (ReadFile_get env streams rf nid offset len tot = (r, rf', streams') \<longrightarrow>
        (\<exists>ks. subseq ks (map sc_r (rf_chunks rf))
           \<and> (map sc_r (rf_chunks rf') = ks
              \<or> map sc_r (rf_chunks rf') = deque_append ks (length streams)))
      \<and> take (length streams) (map r_closed streams') = map r_closed streams
      \<and> ((\<forall>c \<in> set (rf_chunks rf). \<not> has_byte_range c offset len)
           \<and> length (rf_chunks rf) = MAX_CHUNKS_PER_FILE
           \<and> response_chunk env nid offset (CHUNK_SZ env) = Inr resp \<longrightarrow>
          map sc_r (rf_chunks rf') = tl (map sc_r (rf_chunks rf)) @ [length streams]))"
proof (intro conjI impI)
  show "MAX_CHUNKS_PER_FILE = 15" by (simp add: MAX_CHUNKS_PER_FILE_def)
  show "length (chunks_of (read_run ReadProxy_init xs) k) \<le> MAX_CHUNKS_PER_FILE"
    using bounded_run [OF bounded_init, of xs] by (simp add: bounded_def)
next
  assume g: "ReadFile_get env streams rf nid offset len tot = (r, rf', streams')"
  show "\<exists>ks. subseq ks (map sc_r (rf_chunks rf))
           \<and> (map sc_r (rf_chunks rf') = ks
              \<or> map sc_r (rf_chunks rf') = deque_append ks (length streams))"
    by (rule ReadFile_get_props(2) [OF g])
  show "take (length streams) (map r_closed streams') = map r_closed streams"
    by (rule ReadFile_get_props(3) [OF g])
  assume "(\<forall>c \<in> set (rf_chunks rf). \<not> has_byte_range c offset len)
           \<and> length (rf_chunks rf) = MAX_CHUNKS_PER_FILE
           \<and> response_chunk env nid offset (CHUNK_SZ env) = Inr resp"
  then show "map sc_r (rf_chunks rf') = tl (map sc_r (rf_chunks rf)) @ [length streams]"
    using ReadFile_get_miss_at_capacity [OF _ _ _ g] by blast
qed

text \<open>
  The sixteenth read at a new offset of one node: the fifteen chunks of responses 0 to 14
  become those of responses 1 to 15.
\<close>

theorem chunks_bounded_oldest_evicted_witness:
  "length (chunks_of (read_run ReadProxy_init sixteen_reads) ''X'') \<le> 15
   \<and> list_all (\<lambda>c. \<not> has_byte_range c 1500 4) (rf_chunks fifteen_file)
   \<and> length (rf_chunks fifteen_file) = 15
   \<and> response_chunk example_env ''X'' 1500 (CHUNK_SZ example_env)
        = Inr \<lparr>content_length = 10, body = ''0123456789'', r_closed = False\<rparr>
   \<and> map sc_r (rf_chunks fifteen_file) = [0..<15]
   \<and> map sc_r (rf_chunks (fst (snd (ReadFile_get example_env (rp_streams fifteen_reads)
        fifteen_file ''X'' 1500 4 10)))) = [1..<15] @ [15]"
proof -
  obtain r rf' streams' where
    g: "ReadFile_get example_env (rp_streams fifteen_reads) fifteen_file ''X'' 1500 4 10
        = (r, rf', streams')"
    by (cases "ReadFile_get example_env (rp_streams fifteen_reads) fifteen_file ''X'' 1500 4 10")
       auto
  have h1: "list_all (\<lambda>c. \<not> has_byte_range c 1500 4) (rf_chunks fifteen_file)"
    by code_simp
  have h2: "length (rf_chunks fifteen_file) = 15" by code_simp
  have h3: "response_chunk example_env ''X'' 1500 (CHUNK_SZ example_env)
        = Inr \<lparr>content_length = 10, body = ''0123456789'', r_closed = False\<rparr>"
    by (simp add: example_env_def)
  have h4: "map sc_r (rf_chunks fifteen_file) = [0..<15]" by code_simp
  have h5: "length (rp_streams fifteen_reads) = 15" by code_simp
  have h6: "[0..<15] = 0 # [1..<15]" by code_simp
  from h1 have h1': "\<forall>c \<in> set (rf_chunks fifteen_file). \<not> has_byte_range c 1500 4"
    by (simp add: list_all_iff)
  from chunks_bounded_oldest_evicted
    [of sixteen_reads "''X''" example_env "rp_streams fifteen_reads" fifteen_file "''X''"
      1500 4 10 r rf' streams'
      "\<lparr>content_length = 10, body = ''0123456789'', r_closed = False\<rparr>"]
    g h1' h2 h3
  have "length (chunks_of (read_run ReadProxy_init sixteen_reads) ''X'') \<le> 15"
    and "map sc_r (rf_chunks rf') = tl (map sc_r (rf_chunks fifteen_file))
           @ [length (rp_streams fifteen_reads)]"
    by simp_all
  with g h1 h2 h3 h4 h5 h6 show ?thesis by simp
qed

text \<open>
  C5. The bound of 15 chunks and the eviction of the oldest chunk hold, as proved above;
  the last part of the claim does not: the eviction is the \<^verbatim>\<open>append\<close> of a full deque,
  and the program calls \<^verbatim>\<open>StreamChunk.close\<close> on the chunk it drops nowhere. After sixteen
  reads at sixteen offsets of one node, sixteen responses have been opened, the collection
  holds the chunks of responses 1 to 15, and \<^verbatim>\<open>close\<close> has been called on none of the
  sixteen. The release of the node then closes the fifteen chunks of the collection
  (\<^verbatim>\<open>ReadFile.clear\<close>); the evicted response 0 is the one that no call closes.
\<close>

theorem evicted_chunk_is_not_closed:
  "map sc_r (chunks_of (read_run ReadProxy_init sixteen_reads) ''X'') = [1..<16]
   \<and> length (rp_streams (read_run ReadProxy_init sixteen_reads)) = 16
   \<and> \<not> r_closed (rp_streams (read_run ReadProxy_init sixteen_reads) ! 0)
   \<and> list_all (\<lambda>r. \<not> r_closed r) (rp_streams (read_run ReadProxy_init sixteen_reads))
   \<and> map r_closed
        (rp_streams (read_run ReadProxy_init (sixteen_reads @ [(example_env, Release ''X'')])))
       = False # replicate 15 True
   \<and> chunks_of (read_run ReadProxy_init (sixteen_reads @ [(example_env, Release ''X'')])) ''X''
       = []"
  by code_simp

section \<open>Dispatcher properties\<close>

text \<open>
  C10. For a name outside \<^verbatim>\<open>acd.id\<close>, \<^verbatim>\<open>acd.description\<close> and \<^verbatim>\<open>acd.md5\<close>,
  \<^verbatim>\<open>getxattr\<close> raises \<open>ENODATA\<close> whatever the path, the cache and its \<^verbatim>\<open>resolve\<close> are:
  the result does not depend on whether the path resolves.
\<close>

theorem getxattr_unknown_name_no_data:
  "name \<notin> {''acd.id'', ''acd.description'', ''acd.md5''} \<Longrightarrow>
     getxattr env fs path name = Inl (FuseOSError ENODATA)"
  by (simp add: getxattr_def XATTRS_vars_def FXATTRS_vars_def XATTRS_ID_def XATTRS_DESCR_def
      FXATTRS_MD5_def)

theorem getxattr_unknown_name_witness:
  "''user.mime'' \<notin> {''acd.id'', ''acd.description'', ''acd.md5''}
   \<and> resolve example_env (fs_cache example_fs) ''/nowhere'' None = None
   \<and> getxattr example_env example_fs ''/nowhere'' ''user.mime'' = Inl (FuseOSError ENODATA)
   \<and> getxattr example_env example_fs ''/a/x'' ''user.mime'' = Inl (FuseOSError ENODATA)
   \<and> getxattr example_env example_fs ''/nowhere'' ''acd.id'' = Inl AttributeError
   \<and> getxattr example_env example_fs ''/a/x'' ''acd.id'' = Inr ''X''"
  using getxattr_unknown_name_no_data [of "''user.mime''" example_env example_fs "''/nowhere''"]
    getxattr_unknown_name_no_data [of "''user.mime''" example_env example_fs "''/a/x''"]
  by (simp add: getxattr_def XATTRS_vars_def FXATTRS_vars_def XATTRS_ID_def XATTRS_DESCR_def
      FXATTRS_MD5_def example_env_def example_fs_def ACDFuse_init_def example_cache_def
      example_node_def)

text \<open>
  C7. When the path resolves to a node whose size is zero or equals the offset, \<^verbatim>\<open>read\<close>
  returns the empty byte string and leaves the filesystem state, hence the read proxy and
  its table of opened responses, as it was; otherwise its result and the new state of the
  read proxy are those of \<^verbatim>\<open>ReadProxy.get\<close> on the node's id, the offset, the length and
  the node's size.
\<close>

theorem read_short_circuit_or_delegate:
  "resolve env (fs_cache fs) path (Some False) = Some node \<Longrightarrow>
     (n_size node = 0 \<or> n_size node = offset \<longrightarrow>
        read env fs path len offset fh = (Inr [], fs)
        \<and> rp_streams (fs_rp (snd (read env fs path len offset fh))) = rp_streams (fs_rp fs))
     \<and> (\<not> (n_size node = 0 \<or> n_size node = offset) \<longrightarrow>
        read env fs path len offset fh =
          (fst (ReadProxy_get env (fs_rp fs) (n_id node) offset len (n_size node)),
           fs\<lparr>fs_rp := snd (ReadProxy_get env (fs_rp fs) (n_id node) offset len (n_size node))\<rparr>))"
  by (simp add: read_def split_beta)

theorem read_short_circuit_witness:
  "resolve example_env (fs_cache example_fs) ''/a/e'' (Some False)
     = Some (example_node ''E'' FILE 0)
   \<and> read example_env example_fs ''/a/e'' 4096 0 2 = (Inr [], example_fs)
   \<and> resolve example_env (fs_cache example_fs) ''/a/x'' (Some False)
     = Some (example_node ''X'' FILE 10)
   \<and> read example_env example_fs ''/a/x'' 4096 10 2 = (Inr [], example_fs)
   \<and> fst (read example_env example_fs ''/a/x'' 4 0 2) = Inr ''0123''
   \<and> length (rp_streams (fs_rp (snd (read example_env example_fs ''/a/x'' 4 0 2)))) = 1"
proof -
  have r1: "resolve example_env (fs_cache example_fs) ''/a/e'' (Some False)
     = Some (example_node ''E'' FILE 0)"
    by (simp add: example_env_def example_fs_def ACDFuse_init_def example_cache_def)
  have r2: "resolve example_env (fs_cache example_fs) ''/a/x'' (Some False)
     = Some (example_node ''X'' FILE 10)"
    by (simp add: example_env_def example_fs_def ACDFuse_init_def example_cache_def)
  have g: "ReadProxy_get example_env (fs_rp example_fs) ''X'' 0 4 10 =
      (Inr ''0123'',
       \<lparr>rp_files = [''X'' \<mapsto> \<lparr>rf_chunks = [\<lparr>sc_offset = 4, sc_r = 0, sc_end = 9\<rparr>]\<rparr>],
        rp_streams = [\<lparr>content_length = 10, body = ''456789'', r_closed = False\<rparr>]\<rparr>)"
    by (simp add: ReadProxy_get_def ReadFile_get_def ReadFile_init_def StreamChunk_init_def
        StreamChunk_get_def deque_append_def MAX_CHUNKS_PER_FILE_def example_env_def
        example_fs_def ACDFuse_init_def ReadProxy_init_def Let_def)
  from read_short_circuit_or_delegate [OF r1, of 0 4096 2]
    read_short_circuit_or_delegate [OF r2, of 10 4096 2]
    read_short_circuit_or_delegate [OF r2, of 0 4 2] r1 r2 g
  show ?thesis by (simp add: example_node_def)
qed

lemma call_step_handle:
  "call_step env fs c = (r, fs') \<Longrightarrow>
     (case r of Inl e \<Rightarrow> fs_fh fs' = fs_fh fs | Inr h \<Rightarrow> h = fs_fh fs + 1 \<and> fs_fh fs' = h)"
  by (cases c)
     (auto simp: open_file_def create_def remote_def Let_def
       split: if_splits option.splits sum.splits prod.splits)

lemma handles_above:
  "sorted_wrt (<) (handles fs cs) \<and> (\<forall>h \<in> set (handles fs cs). fs_fh fs < h)"
proof (induction fs cs rule: handles.induct)
  case (1 fs)
  show ?case by simp
next
  case (2 fs env c cs)
  obtain r fs' where st: "call_step env fs c = (r, fs')" by (cases "call_step env fs c")
  show ?case
  proof (cases r)
    case (Inl e)
    with call_step_handle [OF st] "2.IH"(1) [OF st [symmetric] Inl] st show ?thesis by simp
  next
    case (Inr h)
    with call_step_handle [OF st] "2.IH"(2) [OF st [symmetric] Inr] st show ?thesis
      by auto
  qed
qed

text \<open>
  C9. The counter starts at 1; a call of \<^verbatim>\<open>open\<close> or \<^verbatim>\<open>create\<close> that returns a handle
  returns the counter plus one and stores it. The handles returned in a session, in the
  order of the calls, are strictly increasing, hence pairwise distinct, and all above 1.
\<close>

theorem handles_strictly_increasing:
  "fs_fh (ACDFuse_init cache) = 1
   \<and> sorted_wrt (<) (handles (ACDFuse_init cache) cs)
   \<and> distinct (handles (ACDFuse_init cache) cs)
   \<and> (\<forall>h \<in> set (handles (ACDFuse_init cache) cs). 1 < h)
   \<and> (call_step env fs c = (Inr h', fs') \<longrightarrow> h' = fs_fh fs + 1 \<and> fs_fh fs' = h')"
proof -
  have a: "fs_fh (ACDFuse_init cache) = 1" by (simp add: ACDFuse_init_def)
  have s: "sorted_wrt (<) (handles (ACDFuse_init cache) cs)"
    using handles_above [of "ACDFuse_init cache" cs] by simp
  then have d: "distinct (handles (ACDFuse_init cache) cs)"
    by (simp add: strict_sorted_iff)
  have b: "\<forall>h \<in> set (handles (ACDFuse_init cache) cs). 1 < h"
    using handles_above [of "ACDFuse_init cache" cs] by (simp add: ACDFuse_init_def)
  have c: "call_step env fs c = (Inr h', fs') \<longrightarrow> h' = fs_fh fs + 1 \<and> fs_fh fs' = h'"
    using call_step_handle [of env fs c "Inr h'" fs'] by simp
  from a s d b c show ?thesis by blast
qed

theorem handles_strictly_increasing_witness:
  "handles example_fs
     [(example_env, Open ''/a/x'' 0), (example_env, Open ''/a/x'' 1024),
      (example_env, Create ''/a/new'' 0), (example_env, Create ''/nowhere/new'' 0),
      (example_env, Open ''/a/e'' 1)] = [2, 3, 4]
   \<and> call_step example_env example_fs (Open ''/a/x'' 0) = (Inr 2, example_fs\<lparr>fs_fh := 2\<rparr>)"
  using handles_strictly_increasing [of example_cache
     "[(example_env, Open ''/a/x'' 0), (example_env, Open ''/a/x'' 1024),
      (example_env, Create ''/a/new'' 0), (example_env, Create ''/nowhere/new'' 0),
      (example_env, Open ''/a/e'' 1)]" example_env example_fs "Open ''/a/x'' 0" 2
      "example_fs\<lparr>fs_fh := 2\<rparr>"]
  by (simp add: example_fs_def ACDFuse_init_def example_env_def example_cache_def open_file_def
      create_def remote_def basename_def dirname_def Let_def)

lemma remote_cases:
  "remote env fs call r = (res, fs') \<Longrightarrow>
     (\<exists>e. r = Inl e \<and> res = Inl (FuseOSError (convert env e))
          \<and> fs' = fs\<lparr>fs_log := fs_log fs @ [Remote call r]\<rparr>)
   \<or> (\<exists>m. r = Inr m \<and> res = Inr ()
          \<and> fs' = fs\<lparr>fs_cache := insert_node env (fs_cache fs) m,
                       fs_log := fs_log fs @ [Remote call r, CacheInsert m]\<rparr>)"
  by (auto simp: remote_def split: sum.splits)

lemmas rename_defs = rename_def and_then_def trash_def rename_id_def move_id_def remote_def
  new_events_def Let_def

lemma rename_log:
  "rename env fs old new = (r, fs') \<Longrightarrow>
     fs_log fs' = fs_log fs @ new_events fs fs' \<and> upserted (new_events fs fs')"
  by (auto simp: rename_defs split: if_splits option.splits sum.splits)

lemma rename_only_if:
  "rename env fs old new = (r, fs') \<Longrightarrow>
     ((\<exists>e \<in> set (new_events fs fs'). renames e) \<longrightarrow> basename old \<noteq> basename new)
   \<and> ((\<exists>e \<in> set (new_events fs fs'). moves e) \<longrightarrow> dirname old \<noteq> dirname new)"
  by (auto simp: rename_defs split: if_splits option.splits sum.splits)

lemma rename_returned:
  "rename env fs old new = (Inr (), fs') \<Longrightarrow> old \<noteq> new \<Longrightarrow>
     ((\<exists>e \<in> set (new_events fs fs'). renames e) = (basename old \<noteq> basename new))
   \<and> ((\<exists>e \<in> set (new_events fs fs'). moves e) = (dirname old \<noteq> dirname new))"
  by (auto simp: rename_defs split: if_splits option.splits sum.splits)

lemma rename_guards:
  "rename env fs old new = (r, fs') \<Longrightarrow>
     (old = new \<longrightarrow> r = Inr () \<and> fs' = fs)
   \<and> (old \<noteq> new \<and> resolve env (fs_cache fs) old (Some False) = None \<longrightarrow>
        r = Inl (FuseOSError ENOENT) \<and> fs' = fs)
   \<and> (old \<noteq> new \<and> resolve env (fs_cache fs) old (Some False) \<noteq> None
        \<and> resolve env (fs_cache fs) new (Some False) = Some ex \<and> \<not> is_file ex \<longrightarrow>
        r = Inl (FuseOSError EEXIST) \<and> fs' = fs)"
  by (auto simp: rename_defs split: if_splits option.splits sum.splits)

lemma rename_trashes_first:
  "rename env fs old new = (r, fs') \<Longrightarrow> old \<noteq> new \<Longrightarrow>
   resolve env (fs_cache fs) old (Some False) \<noteq> None \<Longrightarrow>
   resolve env (fs_cache fs) new (Some False) = Some ex \<Longrightarrow> is_file ex \<Longrightarrow>
     \<exists>rest. new_events fs fs' =
        Remote (MoveToTrash (n_id ex)) (move_to_trash env (n_id ex)) # rest"
  by (auto simp: rename_defs split: if_splits option.splits sum.splits)

lemma rename_enotdir:
  "rename env fs old new = (Inl (FuseOSError ENOTDIR), fs') \<Longrightarrow>
     dirname old \<noteq> dirname new \<and> \<not> (\<exists>e \<in> set (new_events fs fs'). moves e)"
  by (auto simp: rename_defs convert_def split: if_splits option.splits sum.splits)

lemma rename_is_plan:
  "old \<noteq> new \<Longrightarrow> resolve env (fs_cache fs) old (Some False) = Some node \<Longrightarrow>
   \<not> (\<exists>ex. resolve env (fs_cache fs) new (Some False) = Some ex \<and> \<not> is_file ex) \<Longrightarrow>
     rename env fs old new = run_steps env fs (rename_plan env fs old new node)"
  by (auto simp: rename_defs rename_plan_def split: option.splits sum.splits)

lemma rename_cache:
  "rename env fs old new = (r, fs') \<Longrightarrow>
     fs_cache fs' = apply_inserts env (fs_cache fs) (new_events fs fs')"
  by (auto simp: rename_defs split: if_splits option.splits sum.splits)

lemma rename_pinned:
  "rename env fs old new = (r, fs') \<Longrightarrow>
     (\<forall>e \<in> set (new_events fs fs'). renames e \<longrightarrow>
        (\<exists>node. resolve env (fs_cache fs) old (Some False) = Some node
           \<and> e = Remote (RenameNode (n_id node) (basename new))
                   (rename_node env (n_id node) (basename new))))
   \<and> (\<forall>e \<in> set (new_events fs fs'). trashes e \<longrightarrow>
        (\<exists>ex. resolve env (fs_cache fs) new (Some False) = Some ex \<and> is_file ex
           \<and> e = Remote (MoveToTrash (n_id ex)) (move_to_trash env (n_id ex))))
   \<and> (\<forall>e \<in> set (new_events fs fs'). moves e \<longrightarrow>
        (\<exists>node ndir. resolve env (fs_cache fs) old (Some False) = Some node
           \<and> resolve env
                (apply_inserts env (fs_cache fs)
                   (takeWhile (\<lambda>e. \<not> moves e) (new_events fs fs')))
                (dirname new) (Some False) = Some ndir
           \<and> e = Remote (MoveNode (n_id node) (n_id ndir))
                   (move_node env (n_id node) (n_id ndir))))
   \<and> sorted_wrt (<) (map call_rank (calls (new_events fs fs')))"
  by (auto simp: rename_defs split: if_splits option.splits sum.splits)

lemma rename_result:
  "rename env fs old new = (r, fs') \<Longrightarrow>
     (\<forall>c e. Remote c (Inl e) \<in> set (new_events fs fs') \<longrightarrow>
        r = Inl (FuseOSError (convert env e)))
   \<and> ((r = Inr ()) =
        (old = new
         \<or> (resolve env (fs_cache fs) old (Some False) \<noteq> None
            \<and> \<not> (\<exists>ex. resolve env (fs_cache fs) new (Some False) = Some ex \<and> \<not> is_file ex)
            \<and> \<not> (\<exists>e \<in> set (new_events fs fs'). raised e)
            \<and> (dirname old \<noteq> dirname new \<longrightarrow> (\<exists>e \<in> set (new_events fs fs'). moves e)))))"
  by (auto simp: rename_defs split: if_splits option.splits sum.splits)

lemma rename_not_a_directory:
  "rename env fs old new = (r, fs') \<Longrightarrow>
     ((r = Inl (FuseOSError ENOTDIR)) =
        (old \<noteq> new
         \<and> resolve env (fs_cache fs) old (Some False) \<noteq> None
         \<and> \<not> (\<exists>ex. resolve env (fs_cache fs) new (Some False) = Some ex \<and> \<not> is_file ex)
         \<and> \<not> (\<exists>e \<in> set (new_events fs fs'). raised e)
         \<and> dirname old \<noteq> dirname new
         \<and> \<not> (\<exists>e \<in> set (new_events fs fs'). moves e)))
   \<and> (r = Inl (FuseOSError ENOTDIR) \<longrightarrow>
        resolve env (fs_cache fs') (dirname new) (Some False) = None)"
  by (auto simp: rename_defs convert_def split: if_splits option.splits sum.splits)

lemma rename_attempts:
  "rename env fs old new = (r, fs') \<Longrightarrow> old \<noteq> new \<Longrightarrow>
   resolve env (fs_cache fs) old (Some False) \<noteq> None \<Longrightarrow>
   \<not> (\<exists>ex. resolve env (fs_cache fs) new (Some False) = Some ex \<and> \<not> is_file ex) \<Longrightarrow>
     ((\<exists>e \<in> set (new_events fs fs'). trashes e)
        = (resolve env (fs_cache fs) new (Some False) \<noteq> None))
   \<and> ((\<exists>e \<in> set (new_events fs fs'). renames e)
        = (basename old \<noteq> basename new
           \<and> \<not> (\<exists>e \<in> set (new_events fs fs'). trashes e \<and> raised e)))"
  by (auto simp: rename_defs split: if_splits option.splits sum.splits)


text \<open>
  C6, as amended. \<^verbatim>\<open>rename(old, new)\<close> with equal paths returns and changes nothing;
  otherwise it raises \<open>ENOENT\<close> when \<open>old\<close> does not resolve and \<open>EEXIST\<close> when
  \<open>new\<close> resolves to a node that is not a file. Past these checks the call is the run of
  the planned steps, in this order: the \<^verbatim>\<open>move_to_trash\<close> of the file that \<open>new\<close>
  resolves to, the \<^verbatim>\<open>rename_node\<close> of the node to the basename of \<open>new\<close> if the
  basenames differ, the \<^verbatim>\<open>move_node\<close> of the node into the folder that the parent path of
  \<open>new\<close> resolves to at that point if the parent paths differ. Every remote call of the log
  is one of these, with these arguments, at most once and in this order; one that returns is
  followed at once by the \<^verbatim>\<open>insert_node\<close> of what it returned, and the cache afterwards
  is the result of these inserts; one that raises is the last event, and the call raises the
  converted error. The call returns exactly when nothing raised and, where the parent paths
  differ, the move was made; it raises \<open>ENOTDIR\<close> exactly when the checks passed, nothing
  raised, the parent paths differ and no move was made, and then the parent path of
  \<open>new\<close> does not resolve. So the node is renamed only if the basenames differ and moved
  only if the parent paths differ, and a call that returns has renamed exactly when the
  basenames differ and moved exactly when the parent paths differ.
\<close>

theorem rename_steps:
  "rename env fs old new = (r, fs') \<Longrightarrow>
     (old = new \<longrightarrow> r = Inr () \<and> fs' = fs)
   \<and> (old \<noteq> new \<and> resolve env (fs_cache fs) old (Some False) = None \<longrightarrow>
        r = Inl (FuseOSError ENOENT) \<and> fs' = fs)
   \<and> (old \<noteq> new \<and> resolve env (fs_cache fs) old (Some False) \<noteq> None
        \<and> resolve env (fs_cache fs) new (Some False) = Some ex \<and> \<not> is_file ex \<longrightarrow>
        r = Inl (FuseOSError EEXIST) \<and> fs' = fs)
   \<and> (old \<noteq> new \<and> resolve env (fs_cache fs) old (Some False) \<noteq> None
        \<and> resolve env (fs_cache fs) new (Some False) = Some ex \<and> is_file ex \<longrightarrow>
        (\<exists>rest. new_events fs fs' =
           Remote (MoveToTrash (n_id ex)) (move_to_trash env (n_id ex)) # rest))
   \<and> fs_log fs' = fs_log fs @ new_events fs fs'
   \<and> upserted (new_events fs fs')
   \<and> ((\<exists>e \<in> set (new_events fs fs'). renames e) \<longrightarrow> basename old \<noteq> basename new)
   \<and> ((\<exists>e \<in> set (new_events fs fs'). moves e) \<longrightarrow> dirname old \<noteq> dirname new)
   \<and> (r = Inr () \<and> old \<noteq> new \<longrightarrow>
        ((\<exists>e \<in> set (new_events fs fs'). renames e) = (basename old \<noteq> basename new))
      \<and> ((\<exists>e \<in> set (new_events fs fs'). moves e) = (dirname old \<noteq> dirname new)))
   \<and> (r = Inl (FuseOSError ENOTDIR) \<longrightarrow>
        dirname old \<noteq> dirname new \<and> \<not> (\<exists>e \<in> set (new_events fs fs'). moves e))
   \<and> (old \<noteq> new \<and> resolve env (fs_cache fs) old (Some False) = Some node
        \<and> \<not> (\<exists>x. resolve env (fs_cache fs) new (Some False) = Some x \<and> \<not> is_file x) \<longrightarrow>
        rename env fs old new = run_steps env fs (rename_plan env fs old new node))
   \<and> fs_cache fs' = apply_inserts env (fs_cache fs) (new_events fs fs')
   \<and> (\<forall>e \<in> set (new_events fs fs'). renames e \<longrightarrow>
        (\<exists>node. resolve env (fs_cache fs) old (Some False) = Some node
           \<and> e = Remote (RenameNode (n_id node) (basename new))
                   (rename_node env (n_id node) (basename new))))
   \<and> (\<forall>e \<in> set (new_events fs fs'). trashes e \<longrightarrow>
        (\<exists>ex. resolve env (fs_cache fs) new (Some False) = Some ex \<and> is_file ex
           \<and> e = Remote (MoveToTrash (n_id ex)) (move_to_trash env (n_id ex))))
   \<and> (\<forall>e \<in> set (new_events fs fs'). moves e \<longrightarrow>
        (\<exists>node ndir. resolve env (fs_cache fs) old (Some False) = Some node
           \<and> resolve env
                (apply_inserts env (fs_cache fs)
                   (takeWhile (\<lambda>e. \<not> moves e) (new_events fs fs')))
                (dirname new) (Some False) = Some ndir
           \<and> e = Remote (MoveNode (n_id node) (n_id ndir))
                   (move_node env (n_id node) (n_id ndir))))
   \<and> sorted_wrt (<) (map call_rank (calls (new_events fs fs')))
   \<and> (\<forall>c e. Remote c (Inl e) \<in> set (new_events fs fs') \<longrightarrow>
        r = Inl (FuseOSError (convert env e)))
   \<and> ((r = Inr ()) =
        (old = new
         \<or> (resolve env (fs_cache fs) old (Some False) \<noteq> None
            \<and> \<not> (\<exists>ex. resolve env (fs_cache fs) new (Some False) = Some ex \<and> \<not> is_file ex)
            \<and> \<not> (\<exists>e \<in> set (new_events fs fs'). raised e)
            \<and> (dirname old \<noteq> dirname new \<longrightarrow> (\<exists>e \<in> set (new_events fs fs'). moves e)))))
   \<and> ((r = Inl (FuseOSError ENOTDIR)) =
        (old \<noteq> new
         \<and> resolve env (fs_cache fs) old (Some False) \<noteq> None
         \<and> \<not> (\<exists>ex. resolve env (fs_cache fs) new (Some False) = Some ex \<and> \<not> is_file ex)
         \<and> \<not> (\<exists>e \<in> set (new_events fs fs'). raised e)
         \<and> dirname old \<noteq> dirname new
         \<and> \<not> (\<exists>e \<in> set (new_events fs fs'). moves e)))
   \<and> (r = Inl (FuseOSError ENOTDIR) \<longrightarrow>
        resolve env (fs_cache fs') (dirname new) (Some False) = None)
   \<and> (old \<noteq> new \<and> resolve env (fs_cache fs) old (Some False) \<noteq> None
        \<and> \<not> (\<exists>ex. resolve env (fs_cache fs) new (Some False) = Some ex \<and> \<not> is_file ex) \<longrightarrow>
        ((\<exists>e \<in> set (new_events fs fs'). trashes e)
           = (resolve env (fs_cache fs) new (Some False) \<noteq> None))
      \<and> ((\<exists>e \<in> set (new_events fs fs'). renames e)
           = (basename old \<noteq> basename new
              \<and> \<not> (\<exists>e \<in> set (new_events fs fs'). trashes e \<and> raised e))))"
proof -
  assume a: "rename env fs old new = (r, fs')"
  note g = rename_guards [OF a, of ex]
  note g1 = g [THEN conjunct1] and g2 = g [THEN conjunct2, THEN conjunct1]
    and g3 = g [THEN conjunct2, THEN conjunct2]
  have t: "old \<noteq> new \<and> resolve env (fs_cache fs) old (Some False) \<noteq> None
        \<and> resolve env (fs_cache fs) new (Some False) = Some ex \<and> is_file ex \<longrightarrow>
        (\<exists>rest. new_events fs fs' =
           Remote (MoveToTrash (n_id ex)) (move_to_trash env (n_id ex)) # rest)"
    using rename_trashes_first [OF a] by blast
  note l = rename_log [OF a]
  note l1 = l [THEN conjunct1] and l2 = l [THEN conjunct2]
  note o = rename_only_if [OF a]
  note o1 = o [THEN conjunct1] and o2 = o [THEN conjunct2]
  have s: "r = Inr () \<and> old \<noteq> new \<longrightarrow>
        ((\<exists>e \<in> set (new_events fs fs'). renames e) = (basename old \<noteq> basename new))
      \<and> ((\<exists>e \<in> set (new_events fs fs'). moves e) = (dirname old \<noteq> dirname new))"
    using rename_returned [of env fs old new fs'] a by blast
  have n: "r = Inl (FuseOSError ENOTDIR) \<longrightarrow>
        dirname old \<noteq> dirname new \<and> \<not> (\<exists>e \<in> set (new_events fs fs'). moves e)"
    using rename_enotdir [of env fs old new fs'] a by blast
  have plan: "old \<noteq> new \<and> resolve env (fs_cache fs) old (Some False) = Some node
        \<and> \<not> (\<exists>x. resolve env (fs_cache fs) new (Some False) = Some x \<and> \<not> is_file x) \<longrightarrow>
        rename env fs old new = run_steps env fs (rename_plan env fs old new node)"
  proof
    assume h: "old \<noteq> new \<and> resolve env (fs_cache fs) old (Some False) = Some node
        \<and> \<not> (\<exists>x. resolve env (fs_cache fs) new (Some False) = Some x \<and> \<not> is_file x)"
    show "rename env fs old new = run_steps env fs (rename_plan env fs old new node)"
      by (rule rename_is_plan [OF h [THEN conjunct1] h [THEN conjunct2, THEN conjunct1]
            h [THEN conjunct2, THEN conjunct2]])
  qed
  note c = rename_cache [OF a]
  note p = rename_pinned [OF a]
  note p1 = p [THEN conjunct1] and p2 = p [THEN conjunct2, THEN conjunct1]
    and p3 = p [THEN conjunct2, THEN conjunct2, THEN conjunct1]
    and p4 = p [THEN conjunct2, THEN conjunct2, THEN conjunct2]
  note q = rename_result [OF a]
  note q1 = q [THEN conjunct1] and q2 = q [THEN conjunct2]
  note d = rename_not_a_directory [OF a]
  note d1 = d [THEN conjunct1] and d2 = d [THEN conjunct2]
  have att: "old \<noteq> new \<and> resolve env (fs_cache fs) old (Some False) \<noteq> None
        \<and> \<not> (\<exists>ex. resolve env (fs_cache fs) new (Some False) = Some ex \<and> \<not> is_file ex) \<longrightarrow>
        ((\<exists>e \<in> set (new_events fs fs'). trashes e)
           = (resolve env (fs_cache fs) new (Some False) \<noteq> None))
      \<and> ((\<exists>e \<in> set (new_events fs fs'). renames e)
           = (basename old \<noteq> basename new
              \<and> \<not> (\<exists>e \<in> set (new_events fs fs'). trashes e \<and> raised e)))"
  proof
    assume h: "old \<noteq> new \<and> resolve env (fs_cache fs) old (Some False) \<noteq> None
        \<and> \<not> (\<exists>ex. resolve env (fs_cache fs) new (Some False) = Some ex \<and> \<not> is_file ex)"
    show "((\<exists>e \<in> set (new_events fs fs'). trashes e)
           = (resolve env (fs_cache fs) new (Some False) \<noteq> None))
      \<and> ((\<exists>e \<in> set (new_events fs fs'). renames e)
           = (basename old \<noteq> basename new
              \<and> \<not> (\<exists>e \<in> set (new_events fs fs'). trashes e \<and> raised e)))"
      by (rule rename_attempts [OF a h [THEN conjunct1] h [THEN conjunct2, THEN conjunct1]
            h [THEN conjunct2, THEN conjunct2]])
  qed
  show ?thesis
    by (intro conjI)
       (rule g1 g2 g3 t l1 l2 o1 o2 s n plan c p1 p2 p3 p4 q1 q2 d1 d2 att)+
qed

text \<open>Renaming a file onto an existing file of the same folder: trash, then rename.\<close>

theorem rename_steps_witness:
  "resolve example_env (fs_cache example_fs) ''/a/x'' (Some False) \<noteq> None
   \<and> resolve example_env (fs_cache example_fs) ''/a/e'' (Some False)
       = Some (example_node ''E'' FILE 0)
   \<and> is_file (example_node ''E'' FILE 0)
   \<and> rename example_env example_fs ''/a/x'' ''/a/e'' =
       (Inr (), example_fs\<lparr>fs_log :=
          [Remote (MoveToTrash ''E'') (Inr ''E''), CacheInsert ''E'',
           Remote (RenameNode ''X'' ''e'') (Inr ''X''), CacheInsert ''X'']\<rparr>)
   \<and> basename ''/a/x'' \<noteq> basename ''/a/e''
   \<and> dirname ''/a/x'' = dirname ''/a/e''
   \<and> rename_plan example_env example_fs ''/a/x'' ''/a/e'' (example_node ''X'' FILE 10)
       = [TrashStep ''E'', RenameStep ''X'' ''e'']
   \<and> rename example_env example_fs ''/a/x'' ''/a/e''
       = run_steps example_env example_fs [TrashStep ''E'', RenameStep ''X'' ''e'']"
proof -
  have r: "rename example_env example_fs ''/a/x'' ''/a/e'' =
       (Inr (), example_fs\<lparr>fs_log :=
          [Remote (MoveToTrash ''E'') (Inr ''E''), CacheInsert ''E'',
           Remote (RenameNode ''X'' ''e'') (Inr ''X''), CacheInsert ''X'']\<rparr>)"
    by (simp add: rename_defs example_env_def example_fs_def ACDFuse_init_def example_cache_def
        example_node_def is_file_def basename_def dirname_def)
  have h: "resolve example_env (fs_cache example_fs) ''/a/x'' (Some False) \<noteq> None"
    "resolve example_env (fs_cache example_fs) ''/a/e'' (Some False)
       = Some (example_node ''E'' FILE 0)"
    "is_file (example_node ''E'' FILE 0)"
    by (simp_all add: example_env_def example_fs_def ACDFuse_init_def example_cache_def
        example_node_def is_file_def)
  have b: "basename ''/a/x'' \<noteq> basename ''/a/e''" "dirname ''/a/x'' = dirname ''/a/e''"
    by (simp_all add: basename_def dirname_def)
  have o: "resolve example_env (fs_cache example_fs) ''/a/x'' (Some False)
       = Some (example_node ''X'' FILE 10)"
    by (simp add: example_env_def example_fs_def ACDFuse_init_def example_cache_def)
  have pl: "rename_plan example_env example_fs ''/a/x'' ''/a/e'' (example_node ''X'' FILE 10)
       = [TrashStep ''E'', RenameStep ''X'' ''e'']"
    by (simp add: rename_plan_def example_env_def example_fs_def ACDFuse_init_def
        example_cache_def example_node_def basename_def dirname_def)
  from rename_steps [OF r, of "example_node ''E'' FILE 0" "example_node ''X'' FILE 10"] h o
  have "rename example_env example_fs ''/a/x'' ''/a/e''
       = run_steps example_env example_fs
           (rename_plan example_env example_fs ''/a/x'' ''/a/e'' (example_node ''X'' FILE 10))"
    by simp
  then have "rename example_env example_fs ''/a/x'' ''/a/e''
       = run_steps example_env example_fs [TrashStep ''E'', RenameStep ''X'' ''e'']"
    by (simp only: pl)
  with r h b pl show ?thesis by simp
qed

text \<open>
  C6 as stated fails where the parent path of \<open>new\<close> does not resolve: the parent paths
  differ, and the call raises \<open>ENOTDIR\<close> without any remote call.
\<close>

theorem rename_to_missing_parent_does_not_move:
  "''/a/x'' \<noteq> ''/b/x''
   \<and> resolve example_env (fs_cache example_fs) ''/a/x'' (Some False)
       = Some (example_node ''X'' FILE 10)
   \<and> resolve example_env (fs_cache example_fs) ''/b/x'' (Some False) = None
   \<and> dirname ''/a/x'' \<noteq> dirname ''/b/x''
   \<and> rename example_env example_fs ''/a/x'' ''/b/x'' = (Inl (FuseOSError ENOTDIR), example_fs)"
  by (simp add: rename_defs example_env_def example_fs_def ACDFuse_init_def example_cache_def
      example_node_def is_file_def basename_def dirname_def)

section \<open>Properties of the sync engine\<close>

lemma find_id_None:
  "find (\<lambda>r. f_id r = i) E = None \<Longrightarrow> filter (\<lambda>r. f_id r \<noteq> i) E = E"
  by (induction E) (auto split: if_splits)

lemma find_id_Some: "find (\<lambda>r. f_id r = i) E = Some ef \<Longrightarrow> f_id ef = i \<and> ef \<in> set E"
  by (induction E) (auto split: if_splits)

lemma distinct_ids_unique:
  "distinct (map f_id E) \<Longrightarrow> a \<in> set E \<Longrightarrow> b \<in> set E \<Longrightarrow> f_id a = f_id b \<Longrightarrow> a = b"
  by (metis distinct_map inj_onD)

lemma find_id_member:
  "distinct (map f_id E) \<Longrightarrow> f \<in> set E \<Longrightarrow> find (\<lambda>r. f_id r = f_id f) E = Some f"
proof -
  assume d: "distinct (map f_id E)" and m: "f \<in> set E"
  then obtain ef where e: "find (\<lambda>r. f_id r = f_id f) E = Some ef"
    by (cases "find (\<lambda>r. f_id r = f_id f) E") (auto simp: find_None_iff)
  from find_id_Some [OF e] distinct_ids_unique [OF d _ m] e show ?thesis by auto
qed

lemma distinct_upsert1: "distinct (map f_id E) \<Longrightarrow> distinct (map f_id (upsert1 E f))"
  by (auto simp: upsert1_def distinct_map_filter)

lemma set_upsert1: "set (upsert1 E f) = {r \<in> set E. f_id r \<noteq> f_id f} \<union> {f}"
  by (auto simp: upsert1_def)

lemma folders_iter:
  assumes ok: "pk_ok (pending_applied s)" and fo: "folders_only s"
  shows "\<exists>c' s2. folders_loop parse (x # rest) c s = folders_loop parse rest c' s2
           \<and> folders (pending_applied s2)
               = upsert1 (folders (pending_applied s)) (Folder_of parse x)
           \<and> files (pending_applied s2) = files (pending_applied s)
           \<and> folders_only s2 \<and> committed s2 = committed s \<and> parentage s2 = parentage s
           \<and> c' = (case find (\<lambda>r. f_id r = lf_id x) (folders (pending_applied s)) of
                      None \<Rightarrow> c\<lparr>ins := ins c + 1\<rparr>
                    | Some ef \<Rightarrow> if Folder_eq (Folder_of parse x) ef
                                  then c\<lparr>dup := dup c + 1\<rparr> else c\<lparr>upd := upd c + 1\<rparr>)"
proof -
  define E where "E = pending_applied s"
  define f where "f = Folder_of parse x"
  define s1 where
    "s1 = s\<lparr>rows := E, new_folders := [], del_folders := [], new_files := [], del_files := []\<rparr>"
  have fl: "flush s = (Inr (), s1)" using ok by (simp add: flush_def s1_def E_def)
  have idf: "f_id f = lf_id x" by (simp add: Folder_of_def f_def)
  have r1: "folders (rows s1) = folders E" by (simp add: s1_def)
  show ?thesis
  proof (cases "find (\<lambda>r. f_id r = lf_id x) (folders E)")
    case None
    define s2 where "s2 = s1\<lparr>new_folders := new_folders s1 @ [f]\<rparr>"
    have step: "folders_loop parse (x # rest) c s
                = folders_loop parse rest (c\<lparr>ins := ins c + 1\<rparr>) s2"
      using fl None r1 by (simp add: Let_def s2_def f_def)
    from find_id_None [OF None]
    have u: "upsert1 (folders E) f = folders E @ [f]" by (simp add: upsert1_def idf)
    have p: "pending_applied s2 = \<lparr>folders = folders E @ [f], files = files E\<rparr>"
      by (simp add: pending_applied_def s2_def s1_def)
    have rest: "folders_only s2" "committed s2 = committed s" "parentage s2 = parentage s"
      by (simp_all add: folders_only_def s2_def s1_def)
    show ?thesis
      unfolding E_def [symmetric] f_def [symmetric]
      by (rule exI [of _ "c\<lparr>ins := ins c + 1\<rparr>"], rule exI [of _ s2])
         (simp add: step u p rest None del: folders_loop.simps)
  next
    case (Some ef)
    from find_id_Some [OF Some] have ide: "f_id ef = lf_id x" by simp
    define c' where
      "c' = (if Folder_eq f ef then c\<lparr>dup := dup c + 1\<rparr> else c\<lparr>upd := upd c + 1\<rparr>)"
    define s2 where
      "s2 = s1\<lparr>del_folders := del_folders s1 @ [f_id ef], new_folders := new_folders s1 @ [f]\<rparr>"
    have step: "folders_loop parse (x # rest) c s = folders_loop parse rest c' s2"
      using fl Some r1 by (simp add: Let_def s2_def f_def c'_def)
    have p: "pending_applied s2 = \<lparr>folders = upsert1 (folders E) f, files = files E\<rparr>"
      by (simp add: pending_applied_def s2_def s1_def upsert1_def idf ide)
    have rest: "folders_only s2" "committed s2 = committed s" "parentage s2 = parentage s"
      by (simp_all add: folders_only_def s2_def s1_def)
    show ?thesis
      unfolding E_def [symmetric] f_def [symmetric]
      by (rule exI [of _ c'], rule exI [of _ s2])
         (simp add: step p rest Some c'_def del: folders_loop.simps)
  qed
qed

lemma pk_ok_upsert:
  "pk_ok t \<Longrightarrow> folders t' = upsert1 (folders t) f \<Longrightarrow> files t' = files t \<Longrightarrow> pk_ok t'"
  by (simp add: pk_ok_def distinct_upsert1)

lemma folders_loop_general:
  assumes "pk_ok (pending_applied s)" and "folders_only s"
  shows "\<exists>c' s'. folders_loop parse fs c s = (Inr c', s')
           \<and> folders (pending_applied s')
               = foldl upsert1 (folders (pending_applied s)) (map (Folder_of parse) fs)
           \<and> files (pending_applied s') = files (pending_applied s)
           \<and> pk_ok (pending_applied s')
           \<and> folders_only s' \<and> committed s' = committed s \<and> parentage s' = parentage s"
  using assms
proof (induction fs arbitrary: c s)
  case Nil
  then show ?case by simp
next
  case (Cons x rest)
  from folders_iter [OF Cons.prems, of parse x rest c]
  obtain c' s2 where it: "folders_loop parse (x # rest) c s = folders_loop parse rest c' s2"
    "folders (pending_applied s2) = upsert1 (folders (pending_applied s)) (Folder_of parse x)"
    "files (pending_applied s2) = files (pending_applied s)"
    "folders_only s2" "committed s2 = committed s" "parentage s2 = parentage s"
    by blast
  have ok2: "pk_ok (pending_applied s2)"
    by (rule pk_ok_upsert [OF Cons.prems(1) it(2) it(3)])
  from Cons.IH [OF ok2 it(4), of c'] it show ?case by auto
qed

lemma folders_loop_dups:
  assumes "pk_ok (pending_applied s)" and "folders_only s"
    and "Folder_of parse ` set fs \<subseteq> set (folders (pending_applied s))"
  shows "\<exists>s'. folders_loop parse fs c s = (Inr (c\<lparr>dup := dup c + length fs\<rparr>), s')
           \<and> set (folders (pending_applied s')) = set (folders (pending_applied s))"
  using assms
proof (induction fs arbitrary: c s)
  case Nil
  then show ?case by simp
next
  case (Cons x rest)
  let ?E = "folders (pending_applied s)"
  let ?f = "Folder_of parse x"
  from Cons.prems(1) have d: "distinct (map f_id ?E)" by (simp add: pk_ok_def)
  from Cons.prems(3) have m: "?f \<in> set ?E" by simp
  have idf: "f_id ?f = lf_id x" by (simp add: Folder_of_def)
  from find_id_member [OF d m] have fnd: "find (\<lambda>r. f_id r = lf_id x) ?E = Some ?f"
    by (simp add: idf)
  from folders_iter [OF Cons.prems(1,2), of parse x rest c] fnd
  obtain s2 where it: "folders_loop parse (x # rest) c s
      = folders_loop parse rest (c\<lparr>dup := dup c + 1\<rparr>) s2"
    "folders (pending_applied s2) = upsert1 ?E ?f"
    "files (pending_applied s2) = files (pending_applied s)"
    "folders_only s2"
    by (auto simp: Folder_eq_def)
  have ok2: "pk_ok (pending_applied s2)"
    by (rule pk_ok_upsert [OF Cons.prems(1) it(2) it(3)])
  have same: "set (upsert1 ?E ?f) = set ?E"
    using m distinct_ids_unique [OF d _ m] by (auto simp: set_upsert1)
  with Cons.prems(3) it(2)
  have sub: "Folder_of parse ` set rest \<subseteq> set (folders (pending_applied s2))" by auto
  from Cons.IH [OF ok2 it(4) sub, of "c\<lparr>dup := dup c + 1\<rparr>"] it(1,2) same
  show ?case by (auto simp del: folders_loop.simps)
qed

lemma foldl_upsert1_distinct:
  "distinct (map f_id F) \<Longrightarrow>
     foldl upsert1 E F = filter (\<lambda>r. f_id r \<notin> f_id ` set F) E @ F"
proof (induction F arbitrary: E)
  case Nil
  show ?case by simp
next
  case (Cons f F)
  then have "foldl upsert1 (upsert1 E f) F
             = filter (\<lambda>r. f_id r \<notin> f_id ` set F) (upsert1 E f) @ F"
    by simp
  also have "\<dots> = filter (\<lambda>r. f_id r \<notin> f_id ` set (f # F)) E @ f # F"
    using Cons.prems by (auto simp: upsert1_def intro: filter_cong)
  finally show ?case by simp
qed

lemma ids_foldl_upsert1:
  "f_id ` set (foldl upsert1 E F) = f_id ` set E \<union> f_id ` set F"
  by (induction F arbitrary: E) (auto simp: set_upsert1)

lemma set_foldl_upsert1: "set (foldl upsert1 E F) \<subseteq> set E \<union> set F"
  by (induction F arbitrary: E) (fastforce simp: set_upsert1)+

lemma folders_prune_eq:
  "folders_prune listing rs c s =
     (c\<lparr>dtd := dtd c + length (filter (\<lambda>r. f_id r \<notin> lf_id ` set listing) rs)\<rparr>,
      s\<lparr>del_folders := del_folders s
           @ map f_id (filter (\<lambda>r. f_id r \<notin> lf_id ` set listing) rs)\<rparr>)"
  by (induction rs arbitrary: c s) simp_all

lemma filter_not_deleted:
  "filter (\<lambda>r. g r \<notin> set (map g (filter (\<lambda>r. g r \<notin> L) T))) T = filter (\<lambda>r. g r \<in> L) T"
  by (rule filter_cong) auto

lemma insert_folders_full:
  assumes cl: "clean s" and ok: "pk_ok (committed s)"
  shows "\<exists>c s'. insert_folders parse fs False s = (Inr c, s', folder_messages c)
           \<and> clean s' \<and> pk_ok (committed s')
           \<and> files (committed s') = files (committed s)
           \<and> folders (committed s')
               = filter (\<lambda>r. f_id r \<in> lf_id ` set fs)
                   (foldl upsert1 (folders (committed s)) (map (Folder_of parse) fs))
           \<and> fst (folders_loop parse fs no_changes s) = Inr (c\<lparr>dtd := 0\<rparr>)
           \<and> dtd c = length (filter (\<lambda>r. f_id r \<notin> lf_id ` set fs)
                   (foldl upsert1 (folders (committed s)) (map (Folder_of parse) fs)))"
proof -
  from cl have pa: "pending_applied s = committed s"
    by (simp add: clean_def pending_applied_def)
  from cl have fo: "folders_only s" by (simp add: clean_def folders_only_def)
  from ok pa have ok0: "pk_ok (pending_applied s)" by simp
  from folders_loop_general [OF ok0 fo, of parse fs no_changes]
  obtain c1 s1 where l: "folders_loop parse fs no_changes s = (Inr c1, s1)"
    "folders (pending_applied s1)
       = foldl upsert1 (folders (committed s)) (map (Folder_of parse) fs)"
    "files (pending_applied s1) = files (committed s)"
    "pk_ok (pending_applied s1)" "folders_only s1"
    by (auto simp: pa)
  have d0: "dtd c1 = 0"
  proof -
    have "dtd (projr (fst (folders_loop parse fs c s))) = dtd c"
      if "pk_ok (pending_applied s)" "folders_only s" for c and s :: "'a session"
      using that
    proof (induction fs arbitrary: c s)
      case Nil
      show ?case by simp
    next
      case (Cons x rest)
      from folders_iter [OF Cons.prems, of parse x rest c]
      obtain c' s2 where it: "folders_loop parse (x # rest) c s = folders_loop parse rest c' s2"
        "folders (pending_applied s2) = upsert1 (folders (pending_applied s)) (Folder_of parse x)"
        "files (pending_applied s2) = files (pending_applied s)"
        "folders_only s2" "dtd c' = dtd c"
        by (auto split: option.splits)
      have ok2: "pk_ok (pending_applied s2)"
        by (rule pk_ok_upsert [OF Cons.prems(1) it(2) it(3)])
      from Cons.IH [OF ok2 it(4), of c'] it(1,5) show ?case
        by (simp del: folders_loop.simps)
    qed
    from this [OF ok0 fo, of no_changes] l(1) show ?thesis by (simp add: no_changes_def)
  qed
  define T where "T = pending_applied s1"
  define s2 where
    "s2 = s1\<lparr>rows := T, new_folders := [], del_folders := [], new_files := [], del_files := []\<rparr>"
  have fl: "flush s1 = (Inr (), s2)" using l(4) by (simp add: flush_def s2_def T_def)
  define gone where "gone = filter (\<lambda>r. f_id r \<notin> lf_id ` set fs) (folders T)"
  define c2 where "c2 = c1\<lparr>dtd := dtd c1 + length gone\<rparr>"
  define s3 where "s3 = s2\<lparr>del_folders := del_folders s2 @ map f_id gone\<rparr>"
  have pr: "folders_prune fs (folders (rows s2)) c1 s2 = (c2, s3)"
    by (simp add: folders_prune_eq s2_def gone_def c2_def s3_def)
  define K where "K = \<lparr>folders = filter (\<lambda>r. f_id r \<in> lf_id ` set fs) (folders T), files = files T\<rparr>"
  have pa3: "pending_applied s3 = K"
    using filter_not_deleted [of f_id "lf_id ` set fs" "folders T"]
    by (simp add: pending_applied_def s3_def s2_def K_def gone_def)
  have okK: "pk_ok K" using l(4) by (simp add: K_def T_def pk_ok_def distinct_map_filter)
  define s4 where
    "s4 = s3\<lparr>rows := K, new_folders := [], del_folders := [], new_files := [], del_files := [],
             committed := K\<rparr>"
  have cm: "commit s3 = (Inr (), s4)"
    using okK pa3 by (simp add: commit_def flush_def s4_def)
  define s5 where
    "s5 = s4\<lparr>parentage := foldl (\<lambda>es e. insert_or_ignore e es) (parentage s4) (parent_edges fs)\<rparr>"
  have res: "insert_folders parse fs False s = (Inr c2, s5, folder_messages c2)"
    using l(1) fl pr cm by (simp add: insert_folders_def s5_def)
  have p1: "clean s5" "pk_ok (committed s5)" "files (committed s5) = files (committed s)"
    using okK l(3) by (simp_all add: clean_def s5_def s4_def K_def T_def)
  have p2: "folders (committed s5) = filter (\<lambda>r. f_id r \<in> lf_id ` set fs)
                   (foldl upsert1 (folders (committed s)) (map (Folder_of parse) fs))"
    using l(2) by (simp add: s5_def s4_def K_def T_def)
  have p3: "fst (folders_loop parse fs no_changes s) = Inr (c2\<lparr>dtd := 0\<rparr>)"
    using l(1) d0 by (simp add: c2_def)
  have p4: "dtd c2 = length (filter (\<lambda>r. f_id r \<notin> lf_id ` set fs)
                   (foldl upsert1 (folders (committed s)) (map (Folder_of parse) fs)))"
    using l(2) d0 by (simp add: c2_def gone_def T_def)
  from res p1 p2 p3 p4 show ?thesis by blast
qed

lemma find_x_None:
  "(find (\<lambda>r. x_id r = i) E = None) = (i \<notin> x_id ` set E)"
  by (induction E) auto

lemma find_x_Some: "find (\<lambda>r. x_id r = i) E = Some ef \<Longrightarrow> x_id ef = i \<and> ef \<in> set E"
  by (induction E) (auto split: if_splits)

lemma find_x_member:
  assumes d: "distinct (map x_id E)" and m: "f \<in> set E"
  shows "find (\<lambda>r. x_id r = x_id f) E = Some f"
proof -
  from m obtain ef where e: "find (\<lambda>r. x_id r = x_id f) E = Some ef"
    by (cases "find (\<lambda>r. x_id r = x_id f) E") (auto simp: find_x_None)
  from find_x_Some [OF e] have "x_id ef = x_id f" "ef \<in> set E" by simp_all
  with d m have "ef = f" by (metis distinct_map inj_onD)
  with e show ?thesis by simp
qed

lemma files_loop_state:
  "fst (snd (files_loop parse fl c s out)) =
     s\<lparr>del_files := del_files s @ found_ids (files (rows s)) fl,
       new_files := new_files s @ map (File_of parse) fl\<rparr>"
proof (induction fl arbitrary: c s out)
  case Nil
  show ?case by (simp add: found_ids_def)
next
  case (Cons x rest)
  show ?case
  proof (cases "find (\<lambda>r. x_id r = li_id x) (files (rows s))")
    case None
    then have "li_id x \<notin> x_id ` set (files (rows s))" by (simp add: find_x_None)
    with None Cons.IH show ?thesis by (simp add: Let_def found_ids_def)
  next
    case (Some ef)
    from find_x_Some [OF Some] have "x_id ef = li_id x" "li_id x \<in> x_id ` set (files (rows s))"
      by (auto intro: rev_image_eqI)
    with Some Cons.IH show ?thesis by (simp add: Let_def found_ids_def)
  qed
qed

lemma files_loop_dtd: "dtd (fst (files_loop parse fl c s out)) = dtd c"
  by (induction fl arbitrary: c s out) (auto simp: Let_def split: option.splits)

lemma files_loop_dups:
  assumes "distinct (map x_id (files (rows s)))"
    and "File_of parse ` set fl \<subseteq> set (files (rows s))"
  shows "fst (files_loop parse fl c s out) = c\<lparr>dup := dup c + length fl\<rparr>"
  using assms
proof (induction fl arbitrary: c s out)
  case Nil
  show ?case by simp
next
  case (Cons x rest)
  let ?f = "File_of parse x"
  have idf: "x_id ?f = li_id x" by (simp add: File_of_def)
  from Cons.prems have m: "?f \<in> set (files (rows s))" by simp
  from find_x_member [OF Cons.prems(1) m]
  have fnd: "find (\<lambda>r. x_id r = li_id x) (files (rows s)) = Some ?f" by (simp add: idf)
  have eq: "File_eq ?f ?f" by (simp add: File_eq_def)
  from Cons.prems have sub: "File_of parse ` set rest \<subseteq> set (files (rows s))" by simp
  show ?case
    using fnd eq
      Cons.IH [of "s\<lparr>del_files := del_files s @ [x_id ?f], new_files := new_files s @ [?f]\<rparr>"
        "c\<lparr>dup := dup c + 1\<rparr>"] Cons.prems(1) sub
    by (simp add: Let_def)
qed

lemma files_prune_eq:
  "files_prune listing rs c s =
     (c\<lparr>dtd := dtd c + length (filter (\<lambda>r. x_id r \<notin> li_id ` set listing) rs)\<rparr>,
      s\<lparr>del_files := del_files s
           @ map x_id (filter (\<lambda>r. x_id r \<notin> li_id ` set listing) rs)\<rparr>)"
proof (induction rs arbitrary: c s)
  case Nil
  show ?case by simp
next
  case (Cons r rs)
  have "list_ex (\<lambda>file. x_id r = li_id file) listing = (x_id r \<in> li_id ` set listing)"
    by (auto simp: list_ex_iff)
  with Cons show ?case by simp
qed

lemma set_found_ids: "set (found_ids E fl) = li_id ` set fl \<inter> x_id ` set E"
  by (auto simp: found_ids_def)

lemma filter_found:
  "filter (\<lambda>r. x_id r \<notin> set (found_ids E fl)) E = filter (\<lambda>r. x_id r \<notin> li_id ` set fl) E"
  by (rule filter_cong) (auto simp: set_found_ids)

lemma map_x_id_File_of: "map (x_id \<circ> File_of parse) fl = map li_id fl"
  by (simp add: File_of_def comp_def)

lemma files_pending_after_loop:
  assumes cl: "clean s"
  shows "pending_applied (fst (snd (files_loop parse fl c s out))) =
     \<lparr>folders = folders (committed s),
      files = filter (\<lambda>r. x_id r \<notin> li_id ` set fl) (files (committed s))
              @ map (File_of parse) fl\<rparr>"
  using cl by (simp add: files_loop_state pending_applied_def clean_def filter_found)

lemma pk_after_files_loop:
  assumes cl: "clean s" and ok: "pk_ok (committed s)"
  shows "pk_ok (pending_applied (fst (snd (files_loop parse fl c s out))))
         = distinct (map li_id fl)"
proof -
  have "x_id ` set (filter (\<lambda>r. x_id r \<notin> li_id ` set fl) (files (committed s)))
          \<inter> li_id ` set fl = {}"
    by auto
  then show ?thesis
    using ok
    by (simp add: files_pending_after_loop [OF cl] pk_ok_def distinct_map_filter
        map_x_id_File_of image_image)
qed

lemma rollback_pending:
  "clean s \<Longrightarrow> rollback (s\<lparr>del_files := a, new_files := b\<rparr>) = s"
  by (cases s) (simp add: clean_def rollback_def)

lemma insert_files_duplicate_ids:
  assumes cl: "clean s" and ok: "pk_ok (committed s)" and nd: "\<not> distinct (map li_id fl)"
  shows "insert_files parse fl partial s =
           (Inl IntegrityError, s, snd (snd (files_loop parse fl no_changes s [])))"
proof -
  obtain c1 s1 out1 where l: "files_loop parse fl no_changes s [] = (c1, s1, out1)"
    by (cases "files_loop parse fl no_changes s []") auto
  from files_loop_state [of parse fl no_changes s "[]"] l cl
  have s1: "s1 = s\<lparr>del_files := found_ids (files (committed s)) fl,
                    new_files := map (File_of parse) fl\<rparr>"
    by (simp add: clean_def)
  have rb: "rollback s1 = s" unfolding s1 by (rule rollback_pending [OF cl])
  from pk_after_files_loop [OF cl ok, of parse fl no_changes "[]"] l nd
  have "\<not> pk_ok (pending_applied s1)" by simp
  then have fl: "flush s1 = (Inl IntegrityError, s)" by (simp add: flush_def rb)
  then have "commit s1 = (Inl IntegrityError, s)" by (simp add: commit_def)
  with fl l show ?thesis by (cases partial) (simp_all add: insert_files_def)
qed

lemma insert_files_partial:
  assumes cl: "clean s" and ok: "pk_ok (committed s)" and d: "distinct (map li_id fl)"
  shows "\<exists>c s' out. insert_files parse fl True s = (Inr c, s', out)
           \<and> clean s' \<and> pk_ok (committed s')"
proof -
  obtain c1 s1 out1 where l: "files_loop parse fl no_changes s [] = (c1, s1, out1)"
    by (cases "files_loop parse fl no_changes s []") auto
  from pk_after_files_loop [OF cl ok, of parse fl no_changes "[]"] l d
  have ok1: "pk_ok (pending_applied s1)" by simp
  define T where "T = pending_applied s1"
  define s2 where
    "s2 = s1\<lparr>rows := T, new_folders := [], del_folders := [], new_files := [], del_files := [],
             committed := T\<rparr>"
  have cm: "commit s1 = (Inr (), s2)"
    using ok1 by (simp add: commit_def flush_def s2_def T_def)
  have "insert_files parse fl True s = (Inr c1, s2, out1 @ file_messages c1)"
    using l cm by (simp add: insert_files_def)
  moreover have "clean s2" "pk_ok (committed s2)"
    using ok1 by (simp_all add: clean_def s2_def T_def)
  ultimately show ?thesis by blast
qed

lemma insert_folders_partial:
  assumes cl: "clean s" and ok: "pk_ok (committed s)"
  shows "\<exists>c s'. insert_folders parse fs True s = (Inr c, s', folder_messages c)
           \<and> clean s' \<and> pk_ok (committed s')"
proof -
  from cl have pa: "pending_applied s = committed s"
    by (simp add: clean_def pending_applied_def)
  from cl have fo: "folders_only s" by (simp add: clean_def folders_only_def)
  from ok pa have ok0: "pk_ok (pending_applied s)" by simp
  from folders_loop_general [OF ok0 fo, of parse fs no_changes]
  obtain c1 s1 where l: "folders_loop parse fs no_changes s = (Inr c1, s1)"
    "pk_ok (pending_applied s1)"
    by auto
  define T where "T = pending_applied s1"
  define s2 where
    "s2 = s1\<lparr>rows := T, new_folders := [], del_folders := [], new_files := [], del_files := [],
             committed := T\<rparr>"
  have cm: "commit s1 = (Inr (), s2)"
    using l(2) by (simp add: commit_def flush_def s2_def T_def)
  define s3 where
    "s3 = s2\<lparr>parentage := foldl (\<lambda>es e. insert_or_ignore e es) (parentage s2) (parent_edges fs)\<rparr>"
  have "insert_folders parse fs True s = (Inr c1, s3, folder_messages c1)"
    using l(1) cm by (simp add: insert_folders_def s3_def)
  moreover have "clean s3" "pk_ok (committed s3)"
    using l(2) by (simp_all add: clean_def s3_def s2_def T_def)
  ultimately show ?thesis by blast
qed

lemma insert_files_full:
  assumes cl: "clean s" and ok: "pk_ok (committed s)" and d: "distinct (map li_id fl)"
  shows "\<exists>c s' out. insert_files parse fl False s = (Inr c, s', out)
           \<and> clean s' \<and> pk_ok (committed s')
           \<and> folders (committed s') = folders (committed s)
           \<and> files (committed s') = map (File_of parse) fl
           \<and> parentage s' = parentage s
           \<and> fst (files_loop parse fl no_changes s []) = c\<lparr>dtd := 0\<rparr>
           \<and> dtd c = length (filter (\<lambda>r. x_id r \<notin> li_id ` set fl) (files (committed s)))
           \<and> out = snd (snd (files_loop parse fl no_changes s [])) @ file_messages c"
proof -
  obtain c1 s1 out1 where l: "files_loop parse fl no_changes s [] = (c1, s1, out1)"
    by (cases "files_loop parse fl no_changes s []") auto
  from files_loop_dtd [of parse fl no_changes s "[]"] l have d0: "dtd c1 = 0"
    by (simp add: no_changes_def)
  from files_loop_state [of parse fl no_changes s "[]"] l cl
  have s1: "s1 = s\<lparr>del_files := found_ids (files (committed s)) fl,
                    new_files := map (File_of parse) fl\<rparr>"
    by (simp add: clean_def)
  define old where "old = filter (\<lambda>r. x_id r \<notin> li_id ` set fl) (files (committed s))"
  define N where "N = map (File_of parse) fl"
  define T where "T = \<lparr>folders = folders (committed s), files = old @ N\<rparr>"
  from files_pending_after_loop [OF cl, of parse fl no_changes "[]"] l
  have pa1: "pending_applied s1 = T" by (simp add: T_def old_def N_def)
  from pk_after_files_loop [OF cl ok, of parse fl no_changes "[]"] l d
  have ok1: "pk_ok (pending_applied s1)" by simp
  define s2 where
    "s2 = s1\<lparr>rows := T, new_folders := [], del_folders := [], new_files := [], del_files := []\<rparr>"
  have fl: "flush s1 = (Inr (), s2)" using ok1 pa1 by (simp add: flush_def s2_def)
  have idN: "\<forall>r \<in> set N. x_id r \<in> li_id ` set fl" by (auto simp: N_def File_of_def)
  have ido: "\<forall>r \<in> set old. x_id r \<notin> li_id ` set fl" by (auto simp: old_def)
  have gone: "filter (\<lambda>r. x_id r \<notin> li_id ` set fl) (files T) = old"
    using idN ido by (simp add: T_def filter_empty_conv)
  define c2 where "c2 = c1\<lparr>dtd := dtd c1 + length old\<rparr>"
  define s3 where "s3 = s2\<lparr>del_files := del_files s2 @ map x_id old\<rparr>"
  have pr: "files_prune fl (files (rows s2)) c1 s2 = (c2, s3)"
    by (simp add: files_prune_eq s2_def gone c2_def s3_def)
  define K where "K = \<lparr>folders = folders (committed s), files = N\<rparr>"
  have "filter (\<lambda>r. x_id r \<notin> set (map x_id old)) (files T) = N"
    using filter_not_deleted [of x_id "li_id ` set fl" "files T"] idN ido gone
    by (simp add: T_def filter_empty_conv)
  then have pa3: "pending_applied s3 = K"
    using cl by (simp add: pending_applied_def s3_def s2_def s1 K_def T_def clean_def)
  have okK: "pk_ok K"
    using ok d by (simp add: K_def N_def pk_ok_def map_x_id_File_of)
  define s4 where
    "s4 = s3\<lparr>rows := K, new_folders := [], del_folders := [], new_files := [], del_files := [],
             committed := K\<rparr>"
  have cm: "commit s3 = (Inr (), s4)"
    using okK pa3 by (simp add: commit_def flush_def s4_def)
  have res: "insert_files parse fl False s = (Inr c2, s4, out1 @ file_messages c2)"
    using l fl pr cm by (simp add: insert_files_def)
  have p1: "clean s4" "pk_ok (committed s4)" "folders (committed s4) = folders (committed s)"
    "files (committed s4) = map (File_of parse) fl" "parentage s4 = parentage s"
    using okK by (simp_all add: clean_def s4_def s3_def s2_def s1 K_def N_def)
  have p3: "fst (files_loop parse fl no_changes s []) = c2\<lparr>dtd := 0\<rparr>"
    using l d0 by (simp add: c2_def)
  have p4: "dtd c2 = length (filter (\<lambda>r. x_id r \<notin> li_id ` set fl) (files (committed s)))"
    using d0 by (simp add: c2_def old_def)
  from res p1 p3 p4 l show ?thesis by simp
qed

lemma member_foldl_upsert1:
  "r \<in> set (foldl upsert1 E F) \<Longrightarrow> f_id r \<in> f_id ` set F \<Longrightarrow> r \<in> set F"
proof (induction F arbitrary: r rule: rev_induct)
  case Nil
  then show ?case by simp
next
  case (snoc f F)
  from snoc.prems(1) have "r = f \<or> (r \<in> set (foldl upsert1 E F) \<and> f_id r \<noteq> f_id f)"
    by (auto simp: set_upsert1)
  then show ?case
  proof
    assume "r = f"
    then show ?thesis by simp
  next
    assume a: "r \<in> set (foldl upsert1 E F) \<and> f_id r \<noteq> f_id f"
    with snoc.prems(2) have "f_id r \<in> f_id ` set F" by auto
    with snoc.IH a show ?thesis by simp
  qed
qed

lemma ids_Folder_of: "f_id ` set (map (Folder_of parse) fs) = lf_id ` set fs"
  by (auto simp: Folder_of_def image_image)

lemma reconcile_returned:
  assumes cl: "clean s" and ok: "pk_ok (committed s)"
    and r: "sync_node_list parse fs fl s = (Inr cs, s', out)"
  shows "clean s'" and "pk_ok (committed s')"
    and "folders (committed s')
           = filter (\<lambda>r. f_id r \<in> lf_id ` set fs)
               (foldl upsert1 (folders (committed s)) (map (Folder_of parse) fs))"
    and "files (committed s') = map (File_of parse) fl"
    and "distinct (map li_id fl)"
    and "dtd (fst cs) = length (filter (\<lambda>r. f_id r \<notin> lf_id ` set fs)
               (foldl upsert1 (folders (committed s)) (map (Folder_of parse) fs)))"
    and "dtd (snd cs) = length (filter (\<lambda>r. x_id r \<notin> li_id ` set fl) (files (committed s)))"
proof -
  from insert_folders_full [OF cl ok, of parse fs]
  obtain c1 s1 where f: "insert_folders parse fs False s = (Inr c1, s1, folder_messages c1)"
    "clean s1" "pk_ok (committed s1)" "files (committed s1) = files (committed s)"
    "folders (committed s1) = filter (\<lambda>r. f_id r \<in> lf_id ` set fs)
                   (foldl upsert1 (folders (committed s)) (map (Folder_of parse) fs))"
    "dtd c1 = length (filter (\<lambda>r. f_id r \<notin> lf_id ` set fs)
                   (foldl upsert1 (folders (committed s)) (map (Folder_of parse) fs)))"
    by blast
  show d: "distinct (map li_id fl)"
  proof (rule ccontr)
    assume "\<not> distinct (map li_id fl)"
    from insert_files_duplicate_ids [OF f(2,3) this, of parse False] r f(1)
    show False by (auto simp: sync_node_list_def)
  qed
  from insert_files_full [OF f(2,3) d, of parse]
  obtain c2 s2 out2 where g: "insert_files parse fl False s1 = (Inr c2, s2, out2)"
    "clean s2" "pk_ok (committed s2)" "folders (committed s2) = folders (committed s1)"
    "files (committed s2) = map (File_of parse) fl"
    "dtd c2 = length (filter (\<lambda>r. x_id r \<notin> li_id ` set fl) (files (committed s1)))"
    by blast
  from r f(1) g(1) have e: "s' = s2" "cs = (c1, c2)" by (simp_all add: sync_node_list_def)
  from e g f show "clean s'" "pk_ok (committed s')"
    "folders (committed s')
           = filter (\<lambda>r. f_id r \<in> lf_id ` set fs)
               (foldl upsert1 (folders (committed s)) (map (Folder_of parse) fs))"
    "files (committed s') = map (File_of parse) fl"
    "dtd (fst cs) = length (filter (\<lambda>r. f_id r \<notin> lf_id ` set fs)
               (foldl upsert1 (folders (committed s)) (map (Folder_of parse) fs)))"
    "dtd (snd cs) = length (filter (\<lambda>r. x_id r \<notin> li_id ` set fl) (files (committed s)))"
    by simp_all
qed

text \<open>
  C2. After a full reconciliation that returned, from a session with nothing pending over
  a store whose ids are unique per table, the stored ids are exactly the ids of the
  listing: a node absent from the listing is gone, a node of the listing is stored
  whatever its status. Every stored folder is a record of the listing and the stored files
  are the records of the listing, with the status the listing gives them; the numbers of
  deleted files and folders are the numbers of stored rows whose id the listing does not
  have. The trash status is not looked at.
\<close>

theorem full_reconcile_keeps_the_listed_ids:
  assumes "clean s" and "pk_ok (committed s)"
    and "sync_node_list parse fs fl s = (Inr cs, s', out)"
  shows "f_id ` set (folders (committed s')) = lf_id ` set fs
       \<and> set (folders (committed s')) \<subseteq> Folder_of parse ` set fs
       \<and> x_id ` set (files (committed s')) = li_id ` set fl
       \<and> files (committed s') = map (File_of parse) fl
       \<and> dtd (snd cs) = length (filter (\<lambda>r. x_id r \<notin> li_id ` set fl) (files (committed s)))
       \<and> dtd (fst cs) = length (filter (\<lambda>r. f_id r \<notin> lf_id ` set fs) (folders (committed s)))"
proof -
  note rr = reconcile_returned [OF assms]
  let ?E = "folders (committed s)"
  let ?F = "map (Folder_of parse) fs"
  let ?U = "foldl upsert1 ?E ?F"
  have ids: "f_id ` set ?U = f_id ` set ?E \<union> lf_id ` set fs"
    by (simp only: ids_foldl_upsert1 ids_Folder_of)
  have a: "f_id ` set (folders (committed s')) = lf_id ` set fs"
  proof -
    have "f_id ` set (filter (\<lambda>r. f_id r \<in> lf_id ` set fs) ?U) = f_id ` set ?U \<inter> lf_id ` set fs"
      by auto
    with ids rr(3) show ?thesis by auto
  qed
  have b: "set (folders (committed s')) \<subseteq> Folder_of parse ` set fs"
  proof
    fix r assume "r \<in> set (folders (committed s'))"
    with rr(3) have m: "r \<in> set ?U" "f_id r \<in> lf_id ` set fs" by simp_all
    from m(2) have "f_id r \<in> f_id ` set ?F" by (simp only: ids_Folder_of)
    from member_foldl_upsert1 [OF m(1) this] show "r \<in> Folder_of parse ` set fs" by simp
  qed
  have c: "x_id ` set (files (committed s')) = li_id ` set fl"
    by (simp add: rr(4) image_image File_of_def)
  have d: "length (filter (\<lambda>r. f_id r \<notin> lf_id ` set fs) ?U)
           = length (filter (\<lambda>r. f_id r \<notin> lf_id ` set fs) ?E)"
  proof -
    have "filter (\<lambda>r. f_id r \<notin> lf_id ` set fs) (foldl upsert1 E ?F)
          = filter (\<lambda>r. f_id r \<notin> lf_id ` set fs) E" for E
    proof (induction fs arbitrary: E rule: rev_induct)
      case Nil
      show ?case by simp
    next
      case (snoc x xs)
      have "filter (\<lambda>r. f_id r \<notin> lf_id ` set (xs @ [x]))
              (upsert1 (foldl upsert1 E (map (Folder_of parse) xs)) (Folder_of parse x))
            = filter (\<lambda>r. f_id r \<notin> lf_id ` set (xs @ [x]))
                (foldl upsert1 E (map (Folder_of parse) xs))"
        by (auto simp: upsert1_def Folder_of_def intro: filter_cong)
      also have "\<dots> = filter (\<lambda>r. f_id r \<noteq> lf_id x)
                 (filter (\<lambda>r. f_id r \<notin> lf_id ` set xs)
                   (foldl upsert1 E (map (Folder_of parse) xs)))"
        by (auto intro: filter_cong)
      also have "\<dots> = filter (\<lambda>r. f_id r \<noteq> lf_id x) (filter (\<lambda>r. f_id r \<notin> lf_id ` set xs) E)"
        by (simp only: snoc.IH)
      also have "\<dots> = filter (\<lambda>r. f_id r \<notin> lf_id ` set (xs @ [x])) E"
        by (auto intro: filter_cong)
      finally show ?case by simp
    qed
    then show ?thesis by simp
  qed
  from a b c d rr(4,6,7) show ?thesis by simp
qed

text \<open>
  After the first listing is stored, the second listing, from which file X1 is absent and
  in which file X2 is trashed: one file deleted, and X2 stored with status TRASH.
\<close>

theorem full_reconcile_witness:
  "clean first_synced \<and> pk_ok (committed first_synced)
   \<and> map x_id (files (committed first_synced)) = [''X1'', ''X2'']
   \<and> fst (sync_node_list (\<lambda>d. d) (fst second_listing) (snd second_listing) first_synced)
       = Inr (\<lparr>ins = 0, dup = 1, upd = 0, dtd = 0\<rparr>, \<lparr>ins = 0, dup = 1, upd = 0, dtd = 1\<rparr>)
   \<and> map (\<lambda>r. (x_id r, x_status r))
        (files (committed (fst (snd
          (sync_node_list (\<lambda>d. d) (fst second_listing) (snd second_listing) first_synced)))))
       = [(''X2'', ''TRASH'')]"
proof -
  have h1: "clean first_synced" by code_simp
  have h2: "pk_ok (committed first_synced)" by code_simp
  have h3: "map x_id (files (committed first_synced)) = [''X1'', ''X2'']" by code_simp
  have h4: "fst (sync_node_list (\<lambda>d. d) (fst second_listing) (snd second_listing) first_synced)
       = Inr (\<lparr>ins = 0, dup = 1, upd = 0, dtd = 0\<rparr>, \<lparr>ins = 0, dup = 1, upd = 0, dtd = 1\<rparr>)"
    by code_simp
  obtain s' out where
    r: "sync_node_list (\<lambda>d. d) (fst second_listing) (snd second_listing) first_synced
        = (Inr (\<lparr>ins = 0, dup = 1, upd = 0, dtd = 0\<rparr>, \<lparr>ins = 0, dup = 1, upd = 0, dtd = 1\<rparr>),
           s', out)"
    using h4
    by (cases "sync_node_list (\<lambda>d. d) (fst second_listing) (snd second_listing) first_synced") auto
  from full_reconcile_keeps_the_listed_ids [OF h1 h2 r]
  have "files (committed s') = map (File_of (\<lambda>d. d)) (snd second_listing)" by simp
  then have "map (\<lambda>r. (x_id r, x_status r)) (files (committed s')) = [(''X2'', ''TRASH'')]"
    by (simp add: second_listing_def example_file_def File_of_def)
  with h1 h2 h3 h4 r show ?thesis by simp
qed

lemma filter_upsert_self:
  assumes "distinct (map lf_id fs)"
  shows "filter (\<lambda>r. f_id r \<in> lf_id ` set fs) (foldl upsert1 E (map (Folder_of parse) fs))
         = map (Folder_of parse) fs"
proof -
  let ?F = "map (Folder_of parse) fs"
  have i: "map f_id ?F = map lf_id fs" by (simp add: Folder_of_def comp_def)
  from assms have d: "distinct (map f_id ?F)" by (simp only: i)
  have ids: "f_id ` set ?F = lf_id ` set fs" by (rule ids_Folder_of)
  have "filter (\<lambda>r. f_id r \<in> lf_id ` set fs) (filter (\<lambda>r. f_id r \<notin> f_id ` set ?F) E) = []"
    by (simp only: ids) (simp add: filter_empty_conv)
  moreover have "filter (\<lambda>r. f_id r \<in> lf_id ` set fs) ?F = ?F"
    by (simp only: ids [symmetric]) (simp add: filter_id_conv)
  ultimately show ?thesis by (simp add: foldl_upsert1_distinct [OF d])
qed

lemma counters_eqI:
  "ins a = ins b \<Longrightarrow> dup a = dup b \<Longrightarrow> upd a = upd b \<Longrightarrow> dtd a = dtd b \<Longrightarrow>
     a = (b :: counters)"
  by simp

text \<open>
  C1, as amended. For a folder listing and a file listing in which no id occurs twice, from
  a session with nothing pending over a store whose ids are unique per table: the full
  reconciliation returns, and run again at once with the same listings it returns with
  zero inserted, zero updated and zero deleted folders and files, every record counted as
  a duplicate, the committed tables unchanged, and no count printed.
\<close>

theorem reconcile_again_changes_nothing:
  assumes cl: "clean s" and ok: "pk_ok (committed s)"
    and df: "distinct (map lf_id fs)" and dl: "distinct (map li_id fl)"
  shows "\<exists>cs s' out s'' out'.
           sync_node_list parse fs fl s = (Inr cs, s', out)
         \<and> sync_node_list parse fs fl s' =
             (Inr (no_changes\<lparr>dup := length fs\<rparr>, no_changes\<lparr>dup := length fl\<rparr>), s'', out')
         \<and> committed s'' = committed s'
         \<and> folder_messages (no_changes\<lparr>dup := length fs\<rparr>) = []
         \<and> file_messages (no_changes\<lparr>dup := length fl\<rparr>) = []"
proof -
  let ?F = "map (Folder_of parse) fs"
  let ?N = "map (File_of parse) fl"
  \<comment> \<open>the first run\<close>
  from insert_folders_full [OF cl ok, of parse fs]
  obtain c1 s1 where f1: "insert_folders parse fs False s = (Inr c1, s1, folder_messages c1)"
    "clean s1" "pk_ok (committed s1)" by blast
  from insert_files_full [OF f1(2,3) dl, of parse]
  obtain c2 s2 out2 where g1: "insert_files parse fl False s1 = (Inr c2, s2, out2)" by blast
  have r1: "sync_node_list parse fs fl s = (Inr (c1, c2), s2, folder_messages c1 @ out2)"
    using f1(1) g1 by (simp add: sync_node_list_def)
  note p = reconcile_returned [OF cl ok r1]
  have fo2: "folders (committed s2) = ?F"
    using p(3) filter_upsert_self [OF df] by simp
  have fi2: "files (committed s2) = ?N" by (rule p(4))
  \<comment> \<open>the second run: folders\<close>
  from insert_folders_full [OF p(1,2), of parse fs]
  obtain c3 s3 where f3: "insert_folders parse fs False s2 = (Inr c3, s3, folder_messages c3)"
    "clean s3" "pk_ok (committed s3)" "files (committed s3) = files (committed s2)"
    "folders (committed s3) = filter (\<lambda>r. f_id r \<in> lf_id ` set fs)
                   (foldl upsert1 (folders (committed s2)) ?F)"
    "fst (folders_loop parse fs no_changes s2) = Inr (c3\<lparr>dtd := 0\<rparr>)"
    "dtd c3 = length (filter (\<lambda>r. f_id r \<notin> lf_id ` set fs)
                   (foldl upsert1 (folders (committed s2)) ?F))"
    by blast
  from p(1) have pa2: "pending_applied s2 = committed s2"
    by (simp add: clean_def pending_applied_def)
  from p(1) have fon: "folders_only s2" by (simp add: clean_def folders_only_def)
  have "\<exists>sx. folders_loop parse fs no_changes s2
            = (Inr (no_changes\<lparr>dup := dup no_changes + length fs\<rparr>), sx)"
    using folders_loop_dups [of s2 parse fs no_changes] p(2) fon fo2 by (auto simp: pa2)
  with f3(6) have l3: "c3\<lparr>dtd := 0\<rparr> = no_changes\<lparr>dup := length fs\<rparr>"
    by (auto simp: no_changes_def)
  have "f_id ` set (foldl upsert1 ?F ?F) = lf_id ` set fs"
    by (simp only: ids_foldl_upsert1 ids_Folder_of) simp
  then have "filter (\<lambda>r. f_id r \<notin> lf_id ` set fs) (foldl upsert1 ?F ?F) = []"
    by (auto simp: filter_empty_conv)
  with f3(7) fo2 have d3: "dtd c3 = 0" by simp
  have c3: "c3 = no_changes\<lparr>dup := length fs\<rparr>"
  proof (rule counters_eqI)
    from l3 have "ins (c3\<lparr>dtd := 0\<rparr>) = ins (no_changes\<lparr>dup := length fs\<rparr>)"
      "dup (c3\<lparr>dtd := 0\<rparr>) = dup (no_changes\<lparr>dup := length fs\<rparr>)"
      "upd (c3\<lparr>dtd := 0\<rparr>) = upd (no_changes\<lparr>dup := length fs\<rparr>)"
      by simp_all
    then show "ins c3 = ins (no_changes\<lparr>dup := length fs\<rparr>)"
      "dup c3 = dup (no_changes\<lparr>dup := length fs\<rparr>)"
      "upd c3 = upd (no_changes\<lparr>dup := length fs\<rparr>)"
      by simp_all
    from d3 show "dtd c3 = dtd (no_changes\<lparr>dup := length fs\<rparr>)" by (simp add: no_changes_def)
  qed
  have fo3: "folders (committed s3) = ?F"
    using f3(5) fo2 filter_upsert_self [OF df, of ?F parse] by simp
  \<comment> \<open>the second run: files\<close>
  from insert_files_full [OF f3(2,3) dl, of parse]
  obtain c4 s4 out4 where g4: "insert_files parse fl False s3 = (Inr c4, s4, out4)"
    "folders (committed s4) = folders (committed s3)"
    "files (committed s4) = ?N"
    "fst (files_loop parse fl no_changes s3 []) = c4\<lparr>dtd := 0\<rparr>"
    "dtd c4 = length (filter (\<lambda>r. x_id r \<notin> li_id ` set fl) (files (committed s3)))"
    by blast
  from f3(2) have rw3: "rows s3 = committed s3" by (simp add: clean_def)
  have dN: "distinct (map x_id (files (rows s3)))"
    using f3(3) by (simp add: rw3 pk_ok_def)
  have "fst (files_loop parse fl no_changes s3 []) = no_changes\<lparr>dup := dup no_changes + length fl\<rparr>"
    by (rule files_loop_dups [OF dN]) (simp add: rw3 f3(4) fi2)
  with g4(4) have l4: "c4\<lparr>dtd := 0\<rparr> = no_changes\<lparr>dup := length fl\<rparr>"
    by (simp add: no_changes_def)
  have "filter (\<lambda>r. x_id r \<notin> li_id ` set fl) ?N = []"
    by (auto simp: filter_empty_conv File_of_def)
  with g4(5) f3(4) fi2 have d4: "dtd c4 = 0" by simp
  have c4: "c4 = no_changes\<lparr>dup := length fl\<rparr>"
  proof (rule counters_eqI)
    from l4 have "ins (c4\<lparr>dtd := 0\<rparr>) = ins (no_changes\<lparr>dup := length fl\<rparr>)"
      "dup (c4\<lparr>dtd := 0\<rparr>) = dup (no_changes\<lparr>dup := length fl\<rparr>)"
      "upd (c4\<lparr>dtd := 0\<rparr>) = upd (no_changes\<lparr>dup := length fl\<rparr>)"
      by simp_all
    then show "ins c4 = ins (no_changes\<lparr>dup := length fl\<rparr>)"
      "dup c4 = dup (no_changes\<lparr>dup := length fl\<rparr>)"
      "upd c4 = upd (no_changes\<lparr>dup := length fl\<rparr>)"
      by simp_all
    from d4 show "dtd c4 = dtd (no_changes\<lparr>dup := length fl\<rparr>)" by (simp add: no_changes_def)
  qed
  have r2: "sync_node_list parse fs fl s2 =
      (Inr (no_changes\<lparr>dup := length fs\<rparr>, no_changes\<lparr>dup := length fl\<rparr>), s4,
       folder_messages c3 @ out4)"
    using f3(1) g4(1) c3 c4 by (simp add: sync_node_list_def)
  have same: "committed s4 = committed s2"
    using g4(2,3) fo3 fo2 fi2 by (simp add: tables.equality)
  have m: "folder_messages (no_changes\<lparr>dup := length fs\<rparr>) = []"
    "file_messages (no_changes\<lparr>dup := length fl\<rparr>) = []"
    by (simp_all add: folder_messages_def file_messages_def no_changes_def)
  from r1 r2 same m show ?thesis by blast
qed

text \<open>The first listing, reconciled twice into the empty store.\<close>

theorem reconcile_again_witness:
  "clean (empty_session :: string session)
   \<and> pk_ok (committed (empty_session :: string session))
   \<and> distinct (map lf_id (fst first_listing)) \<and> distinct (map li_id (snd first_listing))
   \<and> fst (sync_node_list (\<lambda>d. d) (fst first_listing) (snd first_listing) empty_session)
       = Inr (\<lparr>ins = 1, dup = 0, upd = 0, dtd = 0\<rparr>, \<lparr>ins = 2, dup = 0, upd = 0, dtd = 0\<rparr>)
   \<and> fst (sync_node_list (\<lambda>d. d) (fst first_listing) (snd first_listing) first_synced)
       = Inr (\<lparr>ins = 0, dup = 1, upd = 0, dtd = 0\<rparr>, \<lparr>ins = 0, dup = 2, upd = 0, dtd = 0\<rparr>)
   \<and> snd (snd (sync_node_list (\<lambda>d. d) (fst first_listing) (snd first_listing) first_synced)) = []"
proof -
  have h1: "clean (empty_session :: string session)" by code_simp
  have h2: "pk_ok (committed (empty_session :: string session))" by code_simp
  have h3: "distinct (map lf_id (fst first_listing))" by code_simp
  have h4: "distinct (map li_id (snd first_listing))" by code_simp
  have h5: "fst (sync_node_list (\<lambda>d. d) (fst first_listing) (snd first_listing) empty_session)
       = Inr (\<lparr>ins = 1, dup = 0, upd = 0, dtd = 0\<rparr>, \<lparr>ins = 2, dup = 0, upd = 0, dtd = 0\<rparr>)"
    by code_simp
  have h6: "snd (snd (sync_node_list (\<lambda>d. d) (fst first_listing) (snd first_listing) first_synced)) = []"
    by code_simp
  from reconcile_again_changes_nothing [OF h1 h2 h3 h4, of "\<lambda>d. d"]
  obtain cs s' out s'' out' where
    r: "sync_node_list (\<lambda>d. d) (fst first_listing) (snd first_listing) empty_session = (Inr cs, s', out)"
      "sync_node_list (\<lambda>d. d) (fst first_listing) (snd first_listing) s' =
         (Inr (no_changes\<lparr>dup := length (fst first_listing)\<rparr>,
               no_changes\<lparr>dup := length (snd first_listing)\<rparr>), s'', out')"
    by blast
  from r(1) have "s' = first_synced" by (simp add: first_synced_def)
  with r(2) have "fst (sync_node_list (\<lambda>d. d) (fst first_listing) (snd first_listing) first_synced)
       = Inr (\<lparr>ins = 0, dup = 1, upd = 0, dtd = 0\<rparr>, \<lparr>ins = 0, dup = 2, upd = 0, dtd = 0\<rparr>)"
    by (simp add: no_changes_def first_listing_def)
  with h1 h2 h3 h4 h5 h6 show ?thesis by simp
qed

text \<open>
  C1 as stated fails for a listing that holds a folder twice, as available and as trashed:
  each run stores the second record over the first, so the run after it finds the first
  record changed, then the second, and counts two updates.
\<close>

theorem reconcile_again_updates_a_folder_listed_twice:
  "fst (sync_node_list (\<lambda>d. d) twice_listed [] (empty_session :: string session))
     = Inr (\<lparr>ins = 1, dup = 0, upd = 1, dtd = 0\<rparr>, \<lparr>ins = 0, dup = 0, upd = 0, dtd = 0\<rparr>)
   \<and> sync_node_list (\<lambda>d. d) twice_listed []
       (fst (snd (sync_node_list (\<lambda>d. d) twice_listed [] (empty_session :: string session))))
     = (Inr (\<lparr>ins = 0, dup = 0, upd = 2, dtd = 0\<rparr>, \<lparr>ins = 0, dup = 0, upd = 0, dtd = 0\<rparr>),
        fst (snd (sync_node_list (\<lambda>d. d) twice_listed [] (empty_session :: string session))),
        [''2 folder(s) updated.''])"
  by code_simp

lemma commit_raised:
  "fst (commit x) \<noteq> Inr () \<Longrightarrow>
     commit x = (Inl IntegrityError, rollback x) \<and> clean (rollback x)
     \<and> committed (rollback x) = committed x \<and> parentage (rollback x) = parentage x"
  by (auto simp: commit_def flush_def rollback_def clean_def split: if_splits)

text \<open>
  C3. With the rollback on a violated constraint taken from the specification: on a session
  with nothing pending over a store whose ids are unique per table, a batch of folders,
  partial or full, violates no constraint, is committed and prints its counts only. A batch
  of files, partial or full, raises exactly when it holds an id twice; the error is then
  the \<^verbatim>\<open>IntegrityError\<close> of the flush, it reaches the caller, and the session is the one
  the call began with: nothing pending, rows and committed tables of the earlier batches,
  the same edges. Otherwise the batch is committed. A commit that does not succeed raises
  \<^verbatim>\<open>IntegrityError\<close> and leaves the rolled back session, with the committed tables and
  the edges untouched.
\<close>

theorem constraint_violation_leaves_the_earlier_state:
  assumes "clean s" and "pk_ok (committed s)"
  shows "(\<exists>c s'. insert_folders parse fs partial s = (Inr c, s', folder_messages c)
            \<and> clean s' \<and> pk_ok (committed s'))
       \<and> ((fst (insert_files parse fl partial s) = Inl IntegrityError)
            = (\<not> distinct (map li_id fl)))
       \<and> (\<not> distinct (map li_id fl) \<longrightarrow>
            insert_files parse fl partial s
              = (Inl IntegrityError, s, snd (snd (files_loop parse fl no_changes s []))))
       \<and> (distinct (map li_id fl) \<longrightarrow>
            (\<exists>c s' out. insert_files parse fl partial s = (Inr c, s', out)
               \<and> clean s' \<and> pk_ok (committed s')))
       \<and> (fst (commit x) \<noteq> Inr () \<longrightarrow>
            commit x = (Inl IntegrityError, rollback x) \<and> clean (rollback x)
            \<and> committed (rollback x) = committed x \<and> parentage (rollback x) = parentage x)"
proof -
  have a: "\<exists>c s'. insert_folders parse fs partial s = (Inr c, s', folder_messages c)
            \<and> clean s' \<and> pk_ok (committed s')"
  proof (cases partial)
    case True
    with insert_folders_partial [OF assms, of parse fs] show ?thesis by simp
  next
    case False
    with insert_folders_full [OF assms, of parse fs] show ?thesis by auto
  qed
  have d: "distinct (map li_id fl) \<longrightarrow>
            (\<exists>c s' out. insert_files parse fl partial s = (Inr c, s', out)
               \<and> clean s' \<and> pk_ok (committed s'))"
  proof
    assume dl: "distinct (map li_id fl)"
    show "\<exists>c s' out. insert_files parse fl partial s = (Inr c, s', out)
               \<and> clean s' \<and> pk_ok (committed s')"
    proof (cases partial)
      case True
      with insert_files_partial [OF assms dl, of parse] show ?thesis by simp
    next
      case False
      from insert_files_full [OF assms dl, of parse]
      obtain c s' out where "insert_files parse fl False s = (Inr c, s', out)"
        "clean s'" "pk_ok (committed s')" by blast
      with False show ?thesis by auto
    qed
  qed
  have c: "\<not> distinct (map li_id fl) \<longrightarrow>
            insert_files parse fl partial s
              = (Inl IntegrityError, s, snd (snd (files_loop parse fl no_changes s [])))"
    using insert_files_duplicate_ids [OF assms, of fl parse partial] by blast
  have b: "(fst (insert_files parse fl partial s) = Inl IntegrityError)
            = (\<not> distinct (map li_id fl))"
  proof (cases "distinct (map li_id fl)")
    case True
    with d show ?thesis by auto
  next
    case False
    with c show ?thesis by simp
  qed
  have e: "fst (commit x) \<noteq> Inr () \<longrightarrow>
            commit x = (Inl IntegrityError, rollback x) \<and> clean (rollback x)
            \<and> committed (rollback x) = committed x \<and> parentage (rollback x) = parentage x"
    using commit_raised [of x] by blast
  from a b c d e show ?thesis by (intro conjI)
qed

text \<open>
  The first listing is stored; then a batch that holds file X1 twice, as available and as
  trashed, partial or full: \<^verbatim>\<open>IntegrityError\<close>, and the session is the one before.
\<close>

theorem constraint_violation_witness:
  "clean first_synced \<and> pk_ok (committed first_synced)
   \<and> \<not> distinct (map li_id listed_twice_file)
   \<and> insert_files (\<lambda>d. d) listed_twice_file True first_synced
       = (Inl IntegrityError, first_synced, [])
   \<and> insert_files (\<lambda>d. d) listed_twice_file False first_synced
       = (Inl IntegrityError, first_synced, [])
   \<and> map x_id (files (committed first_synced)) = [''X1'', ''X2'']
   \<and> fst (insert_folders (\<lambda>d. d) twice_listed True first_synced)
       = Inr \<lparr>ins = 0, dup = 1, upd = 1, dtd = 0\<rparr>"
proof -
  have h1: "clean first_synced" by code_simp
  have h2: "pk_ok (committed first_synced)" by code_simp
  have h3: "\<not> distinct (map li_id listed_twice_file)" by code_simp
  have h4: "snd (snd (files_loop (\<lambda>d. d) listed_twice_file no_changes first_synced [])) = []"
    by code_simp
  have h5: "map x_id (files (committed first_synced)) = [''X1'', ''X2'']" by code_simp
  have h6: "fst (insert_folders (\<lambda>d. d) twice_listed True first_synced)
       = Inr \<lparr>ins = 0, dup = 1, upd = 1, dtd = 0\<rparr>"
    by code_simp
  from constraint_violation_leaves_the_earlier_state
    [OF h1 h2, of "\<lambda>d. d" twice_listed True listed_twice_file first_synced]
    constraint_violation_leaves_the_earlier_state
    [OF h1 h2, of "\<lambda>d. d" twice_listed False listed_twice_file first_synced]
    h3 h4
  have "insert_files (\<lambda>d. d) listed_twice_file True first_synced
       = (Inl IntegrityError, first_synced, [])"
    "insert_files (\<lambda>d. d) listed_twice_file False first_synced
       = (Inl IntegrityError, first_synced, [])"
    by simp_all
  with h1 h2 h3 h5 h6 show ?thesis by simp
qed

end
